theory Spec2Isabelle
  imports Main "HOL-Library.Sublist"
begin

section \<open>Integers read from text\<close>

text \<open>
  The scraper reads every number out of page text with two library calls:
  \<^verbatim>\<open>number_re.FindString\<close> for the pattern \<^verbatim>\<open>[0-9]+\<close> and
  \<^verbatim>\<open>strconv.Atoi\<close>. A Go string is a byte sequence, here a \<^typ>\<open>string\<close>;
  Go's \<^verbatim>\<open>int\<close> is taken to be 64 bits wide (the amd64 target), and is an
  \<^typ>\<open>int\<close> with the range checks of the library written out.
\<close>

definition is_digit :: "char \<Rightarrow> bool" where
  "is_digit c = (c \<in> set ''0123456789'')"

definition digit_val :: "char \<Rightarrow> int" where
  "digit_val c = int (of_char c) - 48"

datatype num_error = ErrSyntax | ErrRange

definition max_uint64 :: int where
  "max_uint64 = 18446744073709551615"

definition max_int64 :: int where
  "max_int64 = 9223372036854775807"

text \<open>
  \<^verbatim>\<open>strconv.ParseUint(s, 10, 64)\<close> after its empty-string test: the loop over the
  bytes of \<open>s\<close> with the accumulator \<open>n\<close>. It stops with a syntax error at the
  first byte that is no digit, and with a range error (and the largest value) as
  soon as the accumulator leaves the 64-bit range, before it looks at the bytes
  that follow.
\<close>

fun ParseUint_loop :: "string \<Rightarrow> int \<Rightarrow> int \<times> num_error option" where
  "ParseUint_loop [] n = (n, None)"
| "ParseUint_loop (c # cs) n =
     (if \<not> is_digit c then (0, Some ErrSyntax)
      else if n \<ge> max_uint64 div 10 + 1 then (max_uint64, Some ErrRange)
      else let n1 = n * 10 + digit_val c in
        if n1 > max_uint64 then (max_uint64, Some ErrRange)
        else ParseUint_loop cs n1)"

definition ParseUint :: "string \<Rightarrow> int \<times> num_error option" where
  "ParseUint s = (if s = [] then (0, Some ErrSyntax) else ParseUint_loop s 0)"

text \<open>
  \<^verbatim>\<open>strconv.Atoi(s)\<close>, which is \<^verbatim>\<open>ParseInt(s, 10, 0)\<close>: an optional sign, then
  \<^verbatim>\<open>ParseUint\<close>; a syntax error gives 0, a value outside the range gives the
  nearest bound together with the range error.
\<close>

definition Atoi :: "string \<Rightarrow> int \<times> num_error option" where
  "Atoi s =
     (if s = [] then (0, Some ErrSyntax)
      else let neg = (hd s = CHR ''-'');
               s1 = (if hd s = CHR ''+'' \<or> hd s = CHR ''-'' then tl s else s)
           in case ParseUint s1 of
                (un, Some ErrSyntax) \<Rightarrow> (0, Some ErrSyntax)
              | (un, e) \<Rightarrow>
                  if \<not> neg \<and> un \<ge> max_int64 + 1 then (max_int64, Some ErrRange)
                  else if neg \<and> un > max_int64 + 1 then (- (max_int64 + 1), Some ErrRange)
                  else (if neg then - un else un, None))"

text \<open>
  \<^verbatim>\<open>number_re.FindString(text)\<close>: the leftmost match of \<^verbatim>\<open>[0-9]+\<close>, which is
  the first maximal run of digits wherever it starts, or the empty string.
\<close>

definition FindString :: "string \<Rightarrow> string" where
  "FindString text = takeWhile is_digit (dropWhile (\<lambda>c. \<not> is_digit c) text)"

text \<open>
  \<^verbatim>\<open>parseIntFromSelectionText\<close>, applied to the text of the selection.
\<close>

definition parseIntFromSelectionText :: "string \<Rightarrow> int" where
  "parseIntFromSelectionText text =
     (case Atoi (FindString text) of
        (i, Some err) \<Rightarrow> 0
      | (i, None) \<Rightarrow> i)"

text \<open>
  The integer a digit string denotes, as positional notation defines it: the
  digit at distance \<open>k\<close> from the right end counts \<open>10 ^ k\<close> times.
\<close>

definition denoted :: "string \<Rightarrow> int" where
  "denoted ds = (\<Sum>i < length ds. digit_val (ds ! i) * 10 ^ (length ds - 1 - i))"

section \<open>The relational store\<close>

text \<open>
  The four relations of \<^verbatim>\<open>schema/hackernews.sql\<close> that the scraper writes, each a
  list of rows in insertion order. Every \<^verbatim>\<open>id\<close> column is \<^verbatim>\<open>SERIAL\<close>: the
  store draws it from a sequence, kept here as the last value drawn.

  The store is outside the program, and so is the moment a statement fails
  (a lost connection, a violated constraint). That is an input of the model:
  \<open>faults\<close> is the schedule of the statements still to come, \<open>True\<close> for a
  statement the store answers with an error; past its end every statement
  succeeds.
\<close>

record articles_rec =
  a_id :: int
  a_rank :: int
  a_link :: string
  a_title :: string
  a_score :: int
  a_username :: string
  a_comment_count :: int
  a_comments_link :: string
  a_snapshot_id :: int

record comments_rec =
  c_id :: int
  c_comment_id :: int
  c_username :: string
  c_color :: string
  c_content :: string
  c_article_id :: int

record threads_rec =
  t_id :: int
  t_ancestor :: int
  t_descendant :: int
  t_depth :: int

record db =
  articles :: "articles_rec list"
  articles_seq :: int
  comments :: "comments_rec list"
  comments_seq :: int
  threads :: "threads_rec list"
  threads_seq :: int
  faults :: "bool list"

text \<open>
  How a run of the program can end early: \<^verbatim>\<open>log.Fatal\<close> prints and calls
  \<^verbatim>\<open>os.Exit(1)\<close>; an index out of range or a nil dereference panics. Either
  ends the whole process, all its goroutines included. A result is the store
  as the process left it, or the value returned together with the store.
\<close>

datatype exit = Fatal | Panic

type_synonym 'a result = "(exit \<times> db) + ('a \<times> db)"

text \<open>
  \<^verbatim>\<open>db.QueryRow(...)\<close> followed by \<^verbatim>\<open>Scan\<close>: whether the store answers the next
  statement, and the store with that statement taken off the schedule.
\<close>

definition QueryRow :: "db \<Rightarrow> bool \<times> db" where
  "QueryRow d = (case faults d of [] \<Rightarrow> (True, d) | f # fs \<Rightarrow> (\<not> f, d\<lparr>faults := fs\<rparr>))"

section \<open>Articles and the front page\<close>

text \<open>
  The struct \<^verbatim>\<open>Article\<close>. Its fields \<^verbatim>\<open>ID\<close>, \<^verbatim>\<open>SnapshotID\<close> and \<^verbatim>\<open>Username\<close> carry
  the prefix \<open>art_\<close>, since \<^verbatim>\<open>Comment\<close> and \<^verbatim>\<open>FrontPage\<close> have fields of the
  same names.
\<close>

record Article =
  art_ID :: int
  art_SnapshotID :: int
  Rank :: int
  Link :: string
  Title :: string
  Score :: int
  art_Username :: string
  CommentCount :: int
  CommentsLink :: string

text \<open>
  The program never reads markup itself: it asks goquery. A row of the front
  page is modelled by the answers to the queries the program puts to it, and
  an attribute by the pair \<^verbatim>\<open>Attr\<close> returns, \<open>None\<close> when it is absent.
\<close>

record Subtext =
  score_text :: string \<comment> \<open>\<^verbatim>\<open>s.Find("span.score").Text()\<close>\<close>
  sub_links :: "(string \<times> string option) list" \<comment> \<open>text and \<^verbatim>\<open>href\<close> of each of \<^verbatim>\<open>s.Find("a")\<close>\<close>

record FrontRow =
  row_class :: "string option" \<comment> \<open>\<^verbatim>\<open>s.Attr("class")\<close>\<close>
  rank_text :: string \<comment> \<open>\<^verbatim>\<open>s.Find("span.rank").Text()\<close>\<close>
  title_href :: "string option" \<comment> \<open>\<^verbatim>\<open>s.Find(".title a").Attr("href")\<close>\<close>
  title_text :: string \<comment> \<open>\<^verbatim>\<open>s.Find(".title a").Text()\<close>\<close>
  subtext :: "Subtext option" \<comment> \<open>\<^verbatim>\<open>s.Find("td.subtext")\<close>, \<open>None\<close> when its length is 0\<close>

definition Attr :: "string option \<Rightarrow> string" where
  "Attr v = (case v of None \<Rightarrow> [] | Some x \<Rightarrow> x)"

definition parseTitleRow :: "FrontRow \<Rightarrow> Article \<Rightarrow> Article" where
  "parseTitleRow s a =
     a\<lparr>Rank := parseIntFromSelectionText (rank_text s),
       Link := Attr (title_href s),
       Title := title_text s\<rparr>"

text \<open>
  \<^verbatim>\<open>links.First()\<close> and \<^verbatim>\<open>links.Last()\<close> of an empty selection are empty, with
  the empty text and no attribute.
\<close>

definition parseSubtextRow :: "Subtext option \<Rightarrow> Article \<Rightarrow> Article \<times> bool" where
  "parseSubtextRow s a =
     (case s of
        None \<Rightarrow> (a, False)
      | Some st \<Rightarrow>
          let links = sub_links st;
              first_text = (if links = [] then [] else fst (hd links));
              last_text = (if links = [] then [] else fst (last links));
              last_href = (if links = [] then None else snd (last links))
          in (a\<lparr>Score := parseIntFromSelectionText (score_text st),
                 art_Username := first_text,
                 CommentsLink := Attr last_href,
                 CommentCount := parseIntFromSelectionText last_text\<rparr>, True))"

definition Article_store :: "Article \<Rightarrow> db \<Rightarrow> Article result" where
  "Article_store a d =
     (case QueryRow d of
        (False, d1) \<Rightarrow> Inl (Fatal, d1)
      | (True, d1) \<Rightarrow>
          let i = articles_seq d1 + 1;
              row = \<lparr>a_id = i, a_rank = Rank a, a_link = Link a, a_title = Title a,
                     a_score = Score a, a_username = art_Username a,
                     a_comment_count = CommentCount a, a_comments_link = CommentsLink a,
                     a_snapshot_id = art_SnapshotID a\<rparr>
          in Inr (a\<lparr>art_ID := i\<rparr>,
                  d1\<lparr>articles := articles d1 @ [row], articles_seq := i\<rparr>))"

text \<open>
  \<^verbatim>\<open>FrontPage.Articles\<close> holds pointers, and the article a pointer names is
  written after the pointer was appended (its \<^verbatim>\<open>ID\<close> by \<^verbatim>\<open>store\<close> at the spacer
  row). The articles therefore live in a heap, a list indexed by address, and
  \<open>Articles\<close> is a list of addresses.
\<close>

record FrontPage =
  Articles :: "nat list"
  SnapshotID :: int

record front_state =
  heap :: "Article list"
  cur :: nat \<comment> \<open>the local variable \<^verbatim>\<open>a\<close>\<close>
  page :: FrontPage

definition new_Article :: "int \<Rightarrow> Article" where
  "new_Article sid =
     \<lparr>art_ID = 0, art_SnapshotID = sid, Rank = 0, Link = [], Title = [], Score = 0,
      art_Username = [], CommentCount = 0, CommentsLink = []\<rparr>"

text \<open>\<^verbatim>\<open>a = f.next()\<close>: a fresh article, allocated at the end of the heap.\<close>

definition next_Article :: "front_state \<Rightarrow> front_state" where
  "next_Article st =
     st\<lparr>heap := heap st @ [new_Article (SnapshotID (page st))], cur := length (heap st)\<rparr>"

text \<open>The body of the \<^verbatim>\<open>Each\<close> callback of \<^verbatim>\<open>FrontPage.parse\<close>, for one row.\<close>

definition front_row :: "FrontRow \<Rightarrow> front_state \<times> db \<Rightarrow> front_state result" where
  "front_row s = (\<lambda>(st, d).
     let cls = Attr (row_class s); a = heap st ! cur st in
     if cls = ''spacer'' then
       (case Article_store a d of
          Inl e \<Rightarrow> Inl e
        | Inr (a', d') \<Rightarrow> Inr (next_Article (st\<lparr>heap := (heap st)[cur st := a']\<rparr>), d'))
     else if cls = ''athing'' then
       Inr (st\<lparr>heap := (heap st)[cur st := parseTitleRow s a]\<rparr>, d)
     else if cls = [] then
       (case parseSubtextRow (subtext s) a of
          (a', True) \<Rightarrow>
            Inr (st\<lparr>heap := (heap st)[cur st := a'],
                    page := (page st)\<lparr>Articles := Articles (page st) @ [cur st]\<rparr>\<rparr>, d)
        | (a', False) \<Rightarrow> Inr (st\<lparr>heap := (heap st)[cur st := a']\<rparr>, d))
     else Inr (st, d))"

fun front_rows :: "FrontRow list \<Rightarrow> front_state \<times> db \<Rightarrow> front_state result" where
  "front_rows [] s = Inr s"
| "front_rows (r # rs) s =
     (case front_row r s of Inl e \<Rightarrow> Inl e | Inr s' \<Rightarrow> front_rows rs s')"

text \<open>
  \<^verbatim>\<open>FrontPage.parse\<close>. The document is \<open>None\<close> when the fetch fails, which is
  fatal here. The heap \<open>h\<close> is the heap of the process at the call.
\<close>

definition FrontPage_parse ::
    "FrontPage \<Rightarrow> Article list \<Rightarrow> FrontRow list option \<Rightarrow> db \<Rightarrow> front_state result" where
  "FrontPage_parse f h doc d =
     (case doc of
        None \<Rightarrow> Inl (Fatal, d)
      | Some rows \<Rightarrow>
          front_rows rows (next_Article \<lparr>heap = h, cur = 0, page = f\<rparr>, d))"

text \<open>The articles a snapshot hands on: its pointers, read in the final heap.\<close>

definition snapshot_articles :: "front_state \<Rightarrow> Article list" where
  "snapshot_articles st = map (\<lambda>p. heap st ! p) (Articles (page st))"

section \<open>Comments and the reconstruction scan\<close>

text \<open>The struct \<^verbatim>\<open>Comment\<close>.\<close>

record Comment =
  ID :: int
  Username :: string
  CommentID :: int
  Color :: string
  Content :: string
  ArticleID :: int
  offset :: int

text \<open>
  One \<^verbatim>\<open>span.comment\<close> of an article's page with the table row around it,
  again as the answers to the program's queries.
\<close>

record CommentRow =
  ind_img_width :: "string option" \<comment> \<open>\<^verbatim>\<open>row.Find("td.ind").Find("img").Attr("width")\<close>\<close>
  comhead_links :: "string list" \<comment> \<open>the text of each of \<^verbatim>\<open>links = row.Find("span.comhead").Find("a")\<close>\<close>
  comhead_next_href :: "string option" \<comment> \<open>\<^verbatim>\<open>links.Next().Attr("href")\<close>\<close>
  font_color :: "string option" \<comment> \<open>\<^verbatim>\<open>s.Find("font").Attr("color")\<close>\<close>
  comment_html :: string \<comment> \<open>\<^verbatim>\<open>s.Html()\<close>, the \<^verbatim>\<open>.reply\<close> elements removed\<close>

definition new_Comment :: "int \<Rightarrow> Comment" where
  "new_Comment aid =
     \<lparr>ID = 0, Username = [], CommentID = 0, Color = [], Content = [], ArticleID = aid,
      offset = 0\<rparr>"

text \<open>\<^verbatim>\<open>c.offset, _ = strconv.Atoi(width)\<close>: the value is kept, the error dropped.\<close>

definition parseIndent :: "CommentRow \<Rightarrow> Comment \<Rightarrow> Comment" where
  "parseIndent s c = c\<lparr>offset := fst (Atoi (Attr (ind_img_width s)))\<rparr>"

text \<open>
  \<^verbatim>\<open>strings.Split(s, "=")\<close>, the separator being the one byte: the pieces of \<open>s\<close>
  between its occurrences, never an empty list.
\<close>

fun Split :: "char \<Rightarrow> string \<Rightarrow> string list" where
  "Split sep [] = [[]]"
| "Split sep (c # cs) =
     (if c = sep then [] # Split sep cs
      else case Split sep cs of
             [] \<Rightarrow> [[c]]
           | p # ps \<Rightarrow> (c # p) # ps)"

datatype go_error = WrongLinks | NumError num_error

text \<open>
  \<^verbatim>\<open>parseCommentHead\<close>: the comment as the call leaves it and the error returned,
  or the panic of \<^verbatim>\<open>strings.Split(_id, "=")[1]\<close> when the address holds no
  \<^verbatim>\<open>=\<close>. The number read from the address goes to the field \<^verbatim>\<open>ID\<close>.
\<close>

definition parseCommentHead :: "CommentRow \<Rightarrow> Comment \<Rightarrow> exit + (Comment \<times> go_error option)" where
  "parseCommentHead s c =
     (if length (comhead_links s) \<noteq> 2 then Inr (c, Some WrongLinks)
      else let c1 = c\<lparr>Username := hd (comhead_links s)\<rparr>;
               parts = Split CHR ''='' (Attr (comhead_next_href s))
           in if length parts \<le> 1 then Inl Panic
              else case Atoi (parts ! 1) of
                     (i, Some err) \<Rightarrow> Inr (c1, Some (NumError err))
                   | (i, None) \<Rightarrow> Inr (c1\<lparr>ID := i\<rparr>, None))"

definition parseCommentBody :: "CommentRow \<Rightarrow> Comment \<Rightarrow> Comment" where
  "parseCommentBody s c = c\<lparr>Color := Attr (font_color s), Content := comment_html s\<rparr>"

text \<open>
  \<^verbatim>\<open>Comment.store\<close>: two statements, each fatal when it fails. The first inserts
  the comment, with the field \<^verbatim>\<open>CommentID\<close> in the column \<^verbatim>\<open>comment_id\<close>, and
  scans the row's new \<^verbatim>\<open>id\<close> into the field \<^verbatim>\<open>ID\<close>; the second inserts the
  comment's edge to itself.
\<close>

definition Comment_store :: "Comment \<Rightarrow> db \<Rightarrow> Comment result" where
  "Comment_store c d =
     (case QueryRow d of
        (False, d1) \<Rightarrow> Inl (Fatal, d1)
      | (True, d1) \<Rightarrow>
          let i = comments_seq d1 + 1;
              row = \<lparr>c_id = i, c_comment_id = CommentID c, c_username = Username c,
                     c_color = Color c, c_content = Content c, c_article_id = ArticleID c\<rparr>;
              d2 = d1\<lparr>comments := comments d1 @ [row], comments_seq := i\<rparr>;
              c' = c\<lparr>ID := i\<rparr>
          in case QueryRow d2 of
               (False, d3) \<Rightarrow> Inl (Fatal, d3)
             | (True, d3) \<Rightarrow>
                 let j = threads_seq d3 + 1;
                     edge = \<lparr>t_id = j, t_ancestor = i, t_descendant = i, t_depth = 0\<rparr>
                 in Inr (c', d3\<lparr>threads := threads d3 @ [edge], threads_seq := j\<rparr>))"

text \<open>
  The rows of \<^verbatim>\<open>INSERT ... SELECT ancestor, $1, depth + 1 FROM threads WHERE
  descendant = $2\<close>: one for each edge that ends in the parent, numbered from
  the sequence in the order of the table.
\<close>

fun reply_edges :: "int \<Rightarrow> int \<Rightarrow> threads_rec list \<Rightarrow> threads_rec list" where
  "reply_edges child j [] = []"
| "reply_edges child j (e # es) =
     \<lparr>t_id = j + 1, t_ancestor = t_ancestor e, t_descendant = child, t_depth = t_depth e + 1\<rparr>
       # reply_edges child (j + 1) es"

text \<open>
  \<^verbatim>\<open>c.addReply(child, db)\<close>. \<^verbatim>\<open>Scan\<close> reads the first row the statement returns
  and fails, fatally, when it returns none.
\<close>

definition addReply :: "Comment \<Rightarrow> Comment \<Rightarrow> db \<Rightarrow> int result" where
  "addReply c child d =
     (case QueryRow d of
        (False, d1) \<Rightarrow> Inl (Fatal, d1)
      | (True, d1) \<Rightarrow>
          let sel = filter (\<lambda>e. t_descendant e = ID c) (threads d1);
              new = reply_edges (ID child) (threads_seq d1) sel
          in if new = [] then Inl (Fatal, d1)
             else Inr (t_id (hd new),
                       d1\<lparr>threads := threads d1 @ new,
                          threads_seq := threads_seq d1 + int (length new)\<rparr>))"

text \<open>
  The struct \<^verbatim>\<open>CommentPage\<close>. Its slices hold pointers to comments that are not
  written again once \<^verbatim>\<open>store\<close> has returned, so they are lists of values.
\<close>

record CommentPage =
  Comments :: "Comment list"
  thread :: "Comment list"
  depth :: int

definition new_CommentPage :: CommentPage where
  "new_CommentPage = \<lparr>Comments = [], thread = [], depth = 0\<rparr>"

text \<open>
  The loop \<^verbatim>\<open>for i = cp.depth - 1; i >= 0; i -= 1\<close> with its \<^verbatim>\<open>break\<close>: the value
  of \<open>i\<close> after the loop, or the panic of \<^verbatim>\<open>cp.thread[i]\<close> out of range.
\<close>

function pop_loop :: "Comment list \<Rightarrow> int \<Rightarrow> int \<Rightarrow> exit + int" where
  "pop_loop th off i =
     (if i \<ge> 0 then
        (if nat i \<ge> length th then Inl Panic
         else if offset (th ! nat i) < off then Inr i
         else pop_loop th off (i - 1))
      else Inr i)"
  by pat_completeness auto
termination
  by (relation "measure (\<lambda>(th, off, i). nat (i + 1))") auto

declare pop_loop.simps [simp del]

text \<open>
  The body of the \<^verbatim>\<open>Each\<close> callback of \<^verbatim>\<open>CommentPage.parse\<close>, for one comment of
  the article \<open>a\<close>. The error \<^verbatim>\<open>parseCommentHead\<close> returns is not looked at.
  \<^verbatim>\<open>cp.thread[:i+1]\<close> panics when \<open>i + 1\<close> is not within the slice.
\<close>

definition scan_row :: "Article \<Rightarrow> CommentRow \<Rightarrow> CommentPage \<times> db \<Rightarrow> CommentPage result" where
  "scan_row a s = (\<lambda>(cp, d).
     let c0 = parseIndent s (new_Comment (art_ID a)) in
     case parseCommentHead s c0 of
       Inl x \<Rightarrow> Inl (x, d)
     | Inr (c1, err) \<Rightarrow>
         let c2 = parseCommentBody s c1 in
         case Comment_store c2 d of
           Inl e \<Rightarrow> Inl e
         | Inr (c, d1) \<Rightarrow>
             (case pop_loop (thread cp) (offset c) (depth cp - 1) of
                Inl x \<Rightarrow> Inl (x, d1)
              | Inr i \<Rightarrow>
                  if i + 1 < 0 \<or> nat (i + 1) > length (thread cp) then Inl (Panic, d1)
                  else
                    let th = take (nat (i + 1)) (thread cp) @ [c];
                        cp1 = cp\<lparr>thread := th, depth := int (length th)\<rparr>
                    in if depth cp1 > 1 then
                         (case addReply (thread cp1 ! nat (depth cp1 - 2)) c d1 of
                            Inl e \<Rightarrow> Inl e
                          | Inr (r, d2) \<Rightarrow> Inr (cp1\<lparr>Comments := Comments cp1 @ [c]\<rparr>, d2))
                       else Inr (cp1\<lparr>Comments := Comments cp1 @ [c]\<rparr>, d1)))"

fun scan_rows :: "Article \<Rightarrow> CommentRow list \<Rightarrow> CommentPage \<times> db \<Rightarrow> CommentPage result" where
  "scan_rows a [] s = Inr s"
| "scan_rows a (r # rs) s =
     (case scan_row a r s of Inl e \<Rightarrow> Inl e | Inr s' \<Rightarrow> scan_rows a rs s')"

text \<open>
  \<^verbatim>\<open>cp.parse(a, db)\<close>. The error of the fetch is dropped and the document used:
  when there is none (\<open>None\<close>), \<^verbatim>\<open>doc.Find\<close> dereferences nil.
\<close>

definition CommentPage_parse ::
    "CommentPage \<Rightarrow> Article \<Rightarrow> CommentRow list option \<Rightarrow> db \<Rightarrow> CommentPage result" where
  "CommentPage_parse cp a doc d =
     (case doc of None \<Rightarrow> Inl (Panic, d) | Some rows \<Rightarrow> scan_rows a rows (cp, d))"

text \<open>
  The inner loop of \<^verbatim>\<open>Poll\<close> over the articles of one snapshot: a fresh
  \<^verbatim>\<open>CommentPage\<close> is parsed for each article in turn. \<open>fetch\<close> stands for the
  site: the comment rows found at an address. A fatal error or a panic inside
  a call ends the process, so the articles after it are not reached.
\<close>

fun Poll_articles ::
    "(string \<Rightarrow> CommentRow list option) \<Rightarrow> Article list \<Rightarrow> db \<Rightarrow> (exit \<times> db) + db" where
  "Poll_articles fetch [] d = Inr d"
| "Poll_articles fetch (a # as) d =
     (case CommentPage_parse new_CommentPage a (fetch (CommentsLink a)) d of
        Inl e \<Rightarrow> Inl e
      | Inr (cp, d') \<Rightarrow> Poll_articles fetch as d')"

section \<open>Reading the store\<close>

text \<open>
  What the claims about the thread relation speak of. \<open>ancestors_of d x\<close> is
  the answer to \<^verbatim>\<open>SELECT ancestor, depth FROM threads WHERE descendant = x\<close>, in
  table order; \<open>edge_count d a x k\<close> counts the rows \<open>{a, x, k}\<close>.
\<close>

definition ancestors_of :: "db \<Rightarrow> int \<Rightarrow> (int \<times> int) list" where
  "ancestors_of d x =
     map (\<lambda>e. (t_ancestor e, t_depth e)) (filter (\<lambda>e. t_descendant e = x) (threads d))"

definition edge_count :: "db \<Rightarrow> int \<Rightarrow> int \<Rightarrow> int \<Rightarrow> nat" where
  "edge_count d a x k =
     length (filter (\<lambda>e. t_ancestor e = a \<and> t_descendant e = x \<and> t_depth e = k) (threads d))"

text \<open>
  The store where a run ended, and the reply targets of a scan: for each row
  whose comment the scan linked to a parent, the pair of the comment's id and
  the id of \<^verbatim>\<open>cp.thread[cp.depth-2]\<close>, the entry of the stack that the call of
  \<^verbatim>\<open>addReply\<close> is made on.
\<close>

definition final_db :: "'a result \<Rightarrow> db" where
  "final_db r = (case r of Inl (x, d) \<Rightarrow> d | Inr (v, d) \<Rightarrow> d)"

fun reply_targets :: "Article \<Rightarrow> CommentRow list \<Rightarrow> CommentPage \<times> db \<Rightarrow> (int \<times> int) list" where
  "reply_targets a [] s = []"
| "reply_targets a (r # rs) s =
     (case scan_row a r s of
        Inl e \<Rightarrow> []
      | Inr (cp, d) \<Rightarrow>
          (if depth cp > 1
           then [(ID (last (thread cp)), ID (thread cp ! nat (depth cp - 2)))]
           else []) @ reply_targets a rs (cp, d))"

text \<open>
  The conditions the scan is studied under. \<open>fresh_ids\<close>: the edges in the
  store end in comments the sequence has already numbered, as they do in a
  store that only this program writes. \<open>no_faults\<close>: the store answers every
  statement. \<open>head_ok\<close>: a head region with two links has an address with a
  \<^verbatim>\<open>=\<close> in it, so \<^verbatim>\<open>parseCommentHead\<close> does not panic.
\<close>

definition fresh_ids :: "db \<Rightarrow> bool" where
  "fresh_ids d = (\<forall>e \<in> set (threads d). t_descendant e \<le> comments_seq d)"

definition no_faults :: "db \<Rightarrow> bool" where
  "no_faults d = (\<forall>f \<in> set (faults d). \<not> f)"

definition head_ok :: "CommentRow \<Rightarrow> bool" where
  "head_ok s =
     (length (comhead_links s) = 2 \<longrightarrow>
        length (Split CHR ''='' (Attr (comhead_next_href s))) > 1)"

definition row_offset :: "CommentRow \<Rightarrow> int" where
  "row_offset s = offset (parseIndent s (new_Comment 0))"

text \<open>The invariant of the thread stack.\<close>

definition stack_inv :: "CommentPage \<Rightarrow> bool" where
  "stack_inv cp =
     (depth cp = int (length (thread cp)) \<and> sorted_wrt (<) (map offset (thread cp)))"

section \<open>Summaries used in the proofs\<close>

text \<open>
  \<open>deeper\<close> moves an entry of an ancestor list one level down; \<open>keep off th\<close>
  is the part of the stack whose offsets are below \<open>off\<close>, read from the bottom;
  \<open>stack_pairs\<close> shows the stack as pairs of id and offset.
\<close>

definition deeper :: "int \<times> int \<Rightarrow> int \<times> int" where
  "deeper p = (fst p, snd p + 1)"

definition keep :: "int \<Rightarrow> Comment list \<Rightarrow> Comment list" where
  "keep off th = takeWhile (\<lambda>x. offset x < off) th"

definition stack_pairs :: "CommentPage \<Rightarrow> (int \<times> int) list" where
  "stack_pairs cp = map (\<lambda>c. (ID c, offset c)) (thread cp)"

text \<open>
  The invariant of the scan over a store that answers: the stack invariant,
  and every comment on the stack is numbered and has edges in the store.
\<close>

definition scan_inv :: "CommentPage \<times> db \<Rightarrow> bool" where
  "scan_inv s = (stack_inv (fst s) \<and> fresh_ids (snd s) \<and> no_faults (snd s)
     \<and> (\<forall>x\<in>set (thread (fst s)).
           ID x \<le> comments_seq (snd s) \<and> ancestors_of (snd s) (ID x) \<noteq> []))"

text \<open>
  What the proofs observe of a state of the scan: the stack as pairs, the
  ancestor list of every comment, the last id drawn and the ids of the
  comments collected. \<open>astep\<close> is the effect of one row with offset \<open>off\<close> on
  these four, which \<open>scan_row\<close> is proved to have (lemma \<open>scan_row_inv\<close>).
\<close>

definition summary ::
  "CommentPage \<times> db \<Rightarrow> (int \<times> int) list \<times> (int \<Rightarrow> (int \<times> int) list) \<times> int \<times> int list" where
  "summary s =
     (stack_pairs (fst s), ancestors_of (snd s), comments_seq (snd s), map ID (Comments (fst s)))"

definition astep ::
  "(int \<times> int) list \<times> (int \<Rightarrow> (int \<times> int) list) \<times> int \<times> int list \<Rightarrow> int \<Rightarrow>
   (int \<times> int) list \<times> (int \<Rightarrow> (int \<times> int) list) \<times> int \<times> int list" where
  "astep = (\<lambda>(stk, anc, n, ids) off.
     let k = takeWhile (\<lambda>p. snd p < off) stk; i = n + 1
     in (k @ [(i, off)],
         anc(i := (i, 0) # (if k = [] then [] else map deeper (anc (fst (last k))))),
         i, ids @ [i]))"

section \<open>Sample inputs\<close>

text \<open>
  Concrete inputs on which the theorems below are run: an empty store that
  answers every statement, a stored article, and a comment row given by its
  indentation width, its head links and the address after the first link.
\<close>

definition empty_db :: db where
  "empty_db = \<lparr>articles = [], articles_seq = 0, comments = [], comments_seq = 0,
     threads = [], threads_seq = 0, faults = []\<rparr>"

definition sample_article :: Article where
  "sample_article = (new_Article 1)\<lparr>art_ID := 7, CommentsLink := ''item?id=7''\<rparr>"

definition sample_row :: "string \<Rightarrow> string list \<Rightarrow> string \<Rightarrow> CommentRow" where
  "sample_row w links href =
     \<lparr>ind_img_width = Some w, comhead_links = links, comhead_next_href = Some href,
      font_color = Some ''#000000'', comment_html = ''text''\<rparr>"

section \<open>The reply relation of a scan\<close>

text \<open>
  \<open>linked n0 ps d\<close>: \<open>ps\<close> lists reply targets of comments numbered up to the
  store's sequence, and every comment numbered after \<open>n0\<close> has in \<open>d\<close> exactly
  the ancestor list its entry calls for: itself alone when it has no entry,
  itself and the list of its target one level deeper when it has one.
\<close>

definition linked :: "int \<Rightarrow> (int \<times> int) list \<Rightarrow> db \<Rightarrow> bool" where
  "linked n0 ps d =
     ((\<forall>q\<in>set ps. fst q \<le> comments_seq d) \<and>
      (\<forall>x. n0 < x \<and> x \<le> comments_seq d \<longrightarrow>
         (case map_of ps x of
            None \<Rightarrow> ancestors_of d x = [(x, 0)]
          | Some p \<Rightarrow> n0 < p \<and> p < x
              \<and> ancestors_of d x = (x, 0) # map deeper (ancestors_of d p))))"

text \<open>Well-formed sample rows with the given indentation widths.\<close>

definition sample_rows :: "string list \<Rightarrow> CommentRow list" where
  "sample_rows ws = map (\<lambda>w. sample_row w [''ann'', ''link''] ''item?id=100'') ws"

section \<open>Article groups of the front page\<close>

text \<open>
  On the site every article is three rows: a title row of class \<^verbatim>\<open>athing\<close>, a
  row without a class that holds the subtext (or none, when the article is
  incomplete), and a row of class \<^verbatim>\<open>spacer\<close>. \<open>articles_row\<close> is the row
  \<^verbatim>\<open>Article.store\<close> inserts for an article under a given id.
\<close>

type_synonym article_group = "FrontRow \<times> FrontRow \<times> FrontRow"

definition is_group :: "article_group \<Rightarrow> bool" where
  "is_group g = (case g of (t, u, sp) \<Rightarrow>
     Attr (row_class t) = ''athing'' \<and> Attr (row_class u) = [] \<and> Attr (row_class sp) = ''spacer'')"

definition group_rows :: "article_group \<Rightarrow> FrontRow list" where
  "group_rows g = (case g of (t, u, sp) \<Rightarrow> [t, u, sp])"

definition has_subtext :: "article_group \<Rightarrow> bool" where
  "has_subtext g = (case g of (t, u, sp) \<Rightarrow> subtext u \<noteq> None)"

definition articles_row :: "Article \<Rightarrow> int \<Rightarrow> articles_rec" where
  "articles_row a i =
     \<lparr>a_id = i, a_rank = Rank a, a_link = Link a, a_title = Title a,
      a_score = Score a, a_username = art_Username a,
      a_comment_count = CommentCount a, a_comments_link = CommentsLink a,
      a_snapshot_id = art_SnapshotID a\<rparr>"

text \<open>
  \<^verbatim>\<open>FrontPage.parse\<close> itself knows no groups: it reads any sequence of rows and
  looks at the class of each. A row of class \<^verbatim>\<open>spacer\<close> stores the article in
  progress and starts the next one. Every other row is a step on the article
  in progress, \<open>row_effect\<close>: a title row fills rank, link and title, a row
  without a class goes through \<^verbatim>\<open>parseSubtextRow\<close>, a row of any other class
  is passed over. \<open>appends\<close> holds of the rows that append the article in
  progress to the snapshot: the rows without a class that have subtext
  elements. \<open>built\<close> is the article that rows without a spacer leave in
  progress, from a fresh article of the snapshot.
\<close>

definition is_spacer :: "FrontRow \<Rightarrow> bool" where
  "is_spacer s = (Attr (row_class s) = ''spacer'')"

definition row_effect :: "FrontRow \<Rightarrow> Article \<Rightarrow> Article" where
  "row_effect s a =
     (if Attr (row_class s) = ''athing'' then parseTitleRow s a
      else if Attr (row_class s) = [] then fst (parseSubtextRow (subtext s) a)
      else a)"

definition appends :: "FrontRow \<Rightarrow> bool" where
  "appends s = (Attr (row_class s) = [] \<and> subtext s \<noteq> None)"

definition built :: "int \<Rightarrow> FrontRow list \<Rightarrow> Article" where
  "built sid seg = foldl (\<lambda>a s. row_effect s a) (new_Article sid) seg"

text \<open>
  A page is cut at its spacer rows: segments, each a run of rows without a
  spacer and the spacer row that ends it, and the rows after the last spacer.
  Every row sequence can be cut so.
\<close>

type_synonym segment = "FrontRow list \<times> FrontRow"

definition page_rows :: "segment list \<Rightarrow> FrontRow list \<Rightarrow> FrontRow list" where
  "page_rows segs rest = concat (map (\<lambda>(seg, sp). seg @ [sp]) segs) @ rest"

definition segmented :: "segment list \<Rightarrow> FrontRow list \<Rightarrow> bool" where
  "segmented segs rest =
     ((\<forall>(seg, sp)\<in>set segs. is_spacer sp \<and> (\<forall>s\<in>set seg. \<not> is_spacer s))
      \<and> (\<forall>s\<in>set rest. \<not> is_spacer s))"

text \<open>
  What a page is found to leave behind, for the snapshot \<open>sid\<close> and a
  sequence that stands at \<open>n\<close>: \<open>seg_persisted\<close>, one row of the relation for
  every segment, whatever its rows; \<open>seg_yielded\<close>, the article of a segment
  once for each of its rows that appends, under the id of the segment's row.
\<close>

fun seg_persisted :: "int \<Rightarrow> int \<Rightarrow> segment list \<Rightarrow> articles_rec list" where
  "seg_persisted sid n [] = []"
| "seg_persisted sid n ((seg, sp) # segs) =
     articles_row (built sid seg) (n + 1) # seg_persisted sid (n + 1) segs"

fun seg_yielded :: "int \<Rightarrow> int \<Rightarrow> segment list \<Rightarrow> Article list" where
  "seg_yielded sid n [] = []"
| "seg_yielded sid n ((seg, sp) # segs) =
     replicate (length (filter appends seg)) ((built sid seg)\<lparr>art_ID := n + 1\<rparr>)
       @ seg_yielded sid (n + 1) segs"

text \<open>
  The invariant between two segments: the current article is allocated and
  untouched, and the snapshot's pointers name older articles.
\<close>

definition front_inv :: "int \<Rightarrow> front_state \<Rightarrow> bool" where
  "front_inv sid st = (cur st < length (heap st) \<and> heap st ! cur st = new_Article sid
     \<and> SnapshotID (page st) = sid \<and> (\<forall>p\<in>set (Articles (page st)). p < cur st))"

text \<open>\<^verbatim>\<open>&FrontPage{}\<close> once \<^verbatim>\<open>store\<close> has set its snapshot id.\<close>

definition new_FrontPage :: "int \<Rightarrow> FrontPage" where
  "new_FrontPage sid = \<lparr>Articles = [], SnapshotID = sid\<rparr>"

text \<open>The value a run returned, if it returned.\<close>

definition result_value :: "'a result \<Rightarrow> 'a option" where
  "result_value r = (case r of Inl e \<Rightarrow> None | Inr (v, d) \<Rightarrow> Some v)"

text \<open>
  More sample inputs: an article group with a title, complete or without its
  subtext; a site that serves the same two comments for every article; and
  three comment rows of which the second has three links in its head.
\<close>

definition sample_group :: "string \<Rightarrow> bool \<Rightarrow> article_group" where
  "sample_group title complete =
     (\<lparr>row_class = Some ''athing'', rank_text = ''1.'', title_href = Some ''http://example.org'',
       title_text = title, subtext = None\<rparr>,
      \<lparr>row_class = None, rank_text = [], title_href = None, title_text = [],
       subtext = (if complete
         then Some \<lparr>score_text = ''42 points'',
                sub_links = [(''ann'', Some ''user?id=ann''), (''15 comments'', Some ''item?id=7'')]\<rparr>
         else None)\<rparr>,
      \<lparr>row_class = Some ''spacer'', rank_text = [], title_href = None, title_text = [],
       subtext = None\<rparr>)"

text \<open>
  A row that belongs to the layout of the page, with the class given, and a
  page of nine rows: a layout row, a complete article, an article without its
  subtext, and two layout rows after the last spacer.
\<close>

definition sample_layout :: "string option \<Rightarrow> FrontRow" where
  "sample_layout cls =
     \<lparr>row_class = cls, rank_text = [], title_href = None, title_text = [], subtext = None\<rparr>"

definition sample_segments :: "segment list" where
  "sample_segments =
     [([sample_layout None, fst (sample_group ''A'' True), fst (snd (sample_group ''A'' True))],
       snd (snd (sample_group ''A'' True))),
      ([fst (sample_group ''B'' False), fst (snd (sample_group ''B'' False))],
       snd (snd (sample_group ''B'' False)))]"

definition sample_rest :: "FrontRow list" where
  "sample_rest = [sample_layout (Some ''morespace''), sample_layout None]"

definition sample_fetch :: "string \<Rightarrow> CommentRow list option" where
  "sample_fetch link = Some (sample_rows [''0'', ''40''])"

definition malformed_rows :: "CommentRow list" where
  "malformed_rows =
     [sample_row ''0'' [''ann'', ''link''] ''item?id=100'',
      sample_row ''1'' [''bob'', ''parent'', ''link''] ''item?id=101'',
      sample_row ''2'' [''cyd'', ''link''] ''item?id=102'']"

text \<open>The store with its schedule cleared: the same relations, no fault to come.\<close>

definition answering :: "db \<Rightarrow> db" where
  "answering d = d\<lparr>faults := []\<rparr>"

section \<open>Reading integers: proofs\<close>

lemma denoted_Nil: "denoted [] = 0" by (simp add: denoted_def)

lemma denoted_Cons: "denoted (c # ds) = digit_val c * 10 ^ length ds + denoted ds"
  by (simp add: denoted_def sum.lessThan_Suc_shift del: sum.lessThan_Suc)

lemma digit_val_range: "is_digit c \<Longrightarrow> 0 \<le> digit_val c \<and> digit_val c \<le> 9"
  by (auto simp: is_digit_def digit_val_def)

lemma denoted_nonneg: "list_all is_digit ds \<Longrightarrow> 0 \<le> denoted ds"
  by (induction ds) (auto simp: denoted_Nil denoted_Cons digit_val_range)

lemma ParseUint_loop_digits:
  "list_all is_digit ds \<Longrightarrow> 0 \<le> n \<Longrightarrow> n \<le> max_uint64 \<Longrightarrow>
   ParseUint_loop ds n =
     (if n * 10 ^ length ds + denoted ds \<le> max_uint64
      then (n * 10 ^ length ds + denoted ds, None)
      else (max_uint64, Some ErrRange))"
proof (induction ds arbitrary: n)
  case Nil
  then show ?case by (simp add: denoted_Nil)
next
  case (Cons c cs)
  have d: "0 \<le> digit_val c" "digit_val c \<le> 9" and cs: "list_all is_digit cs" and c: "is_digit c"
    using Cons.prems(1) digit_val_range by auto
  have nn: "0 \<le> denoted cs" using cs by (rule denoted_nonneg)
  have p: "(1::int) \<le> 10 ^ length cs" by simp
  let ?n1 = "n * 10 + digit_val c"
  have val: "n * 10 ^ length (c # cs) + denoted (c # cs) = ?n1 * 10 ^ length cs + denoted cs"
    by (simp add: denoted_Cons algebra_simps)
  have ge: "?n1 \<le> ?n1 * 10 ^ length cs + denoted cs"
  proof -
    have "?n1 * 1 \<le> ?n1 * 10 ^ length cs" using d Cons.prems(2) p by (intro mult_left_mono) auto
    then show ?thesis using nn by simp
  qed
  show ?case
  proof (cases "n \<ge> max_uint64 div 10 + 1")
    case True
    then have "?n1 > max_uint64" using d by (simp add: max_uint64_def)
    then show ?thesis using True c ge unfolding val by simp
  next
    case False
    show ?thesis
    proof (cases "?n1 > max_uint64")
      case True
      then show ?thesis using False c ge unfolding val by (simp add: Let_def)
    next
      case b: False
      have "0 \<le> ?n1" using d Cons.prems(2) by simp
      then show ?thesis using False b c Cons.IH[OF cs, of ?n1] unfolding val by (simp add: Let_def)
    qed
  qed
qed

lemma Atoi_digits:
  "ds \<noteq> [] \<Longrightarrow> list_all is_digit ds \<Longrightarrow>
   Atoi ds = (if denoted ds \<le> max_int64 then (denoted ds, None) else (max_int64, Some ErrRange))"
proof -
  assume ne: "ds \<noteq> []" and dig: "list_all is_digit ds"
  have h: "is_digit (hd ds)" using ne dig by (cases ds) auto
  have s: "hd ds \<noteq> CHR ''+''" "hd ds \<noteq> CHR ''-''" using h by (auto simp: is_digit_def)
  have pu: "ParseUint ds = (if denoted ds \<le> max_uint64 then (denoted ds, None) else (max_uint64, Some ErrRange))"
    using ne ParseUint_loop_digits[OF dig, of 0] by (simp add: ParseUint_def max_uint64_def)
  show ?thesis using ne s pu by (auto simp: Atoi_def max_int64_def max_uint64_def)
qed

lemma FindString_decomp:
  assumes "list_all (\<lambda>c. \<not> is_digit c) pre" "list_all is_digit run"
    "rest = [] \<or> \<not> is_digit (hd rest)" "run = [] \<longrightarrow> rest = []"
  shows "FindString (pre @ run @ rest) = run"
proof -
  have 1: "dropWhile (\<lambda>c. \<not> is_digit c) (pre @ run @ rest) = dropWhile (\<lambda>c. \<not> is_digit c) (run @ rest)"
    using assms(1) by (induction pre) auto
  have 2: "dropWhile (\<lambda>c. \<not> is_digit c) (run @ rest) = run @ rest"
    using assms(2,4) by (cases run) auto
  have 0: "takeWhile is_digit rest = []"
    using assms(3) by (cases rest) auto
  have 3: "takeWhile is_digit (run @ rest) = run"
    using assms(2) 0 by (induction run) auto
  show ?thesis using 1 2 3 by (simp add: FindString_def)
qed

section \<open>One row of the scan\<close>

lemma QueryRow_eq:
  "QueryRow d = (faults d = [] \<or> \<not> hd (faults d), d\<lparr>faults := tl (faults d)\<rparr>)"
  by (cases "faults d") (auto simp: QueryRow_def)

lemma no_faults_tl: "no_faults d \<Longrightarrow> no_faults (d\<lparr>faults := tl (faults d)\<rparr>)"
  by (cases "faults d") (auto simp: no_faults_def)

lemma no_faults_ok: "no_faults d \<Longrightarrow> faults d = [] \<or> \<not> hd (faults d)"
  by (cases "faults d") (auto simp: no_faults_def)

lemma Comment_store_ok:
  assumes "no_faults d"
  shows "\<exists>d'. Comment_store c d = Inr (c\<lparr>ID := comments_seq d + 1\<rparr>, d')
     \<and> no_faults d'
     \<and> comments d' = comments d @ [\<lparr>c_id = comments_seq d + 1, c_comment_id = CommentID c,
           c_username = Username c, c_color = Color c, c_content = Content c,
           c_article_id = ArticleID c\<rparr>]
     \<and> comments_seq d' = comments_seq d + 1
     \<and> threads d' = threads d @ [\<lparr>t_id = threads_seq d + 1, t_ancestor = comments_seq d + 1,
           t_descendant = comments_seq d + 1, t_depth = 0\<rparr>]
     \<and> threads_seq d' = threads_seq d + 1
     \<and> articles d' = articles d \<and> articles_seq d' = articles_seq d"
proof -
  have 1: "faults d = [] \<or> \<not> hd (faults d)" using assms by (rule no_faults_ok)
  have nf1: "no_faults (d\<lparr>faults := tl (faults d)\<rparr>)" using assms by (rule no_faults_tl)
  have 2: "tl (faults d) = [] \<or> \<not> hd (tl (faults d))"
    using no_faults_ok[OF nf1] by simp
  have nf2: "no_faults (d\<lparr>faults := tl (tl (faults d))\<rparr>)"
    using no_faults_tl[OF nf1] by simp
  then have nf3: "\<forall>f\<in>set (tl (tl (faults d))). \<not> f" by (simp add: no_faults_def)
  show ?thesis using 1 2 nf3
    by (simp add: Comment_store_def QueryRow_eq Let_def no_faults_def)
qed

lemma reply_edges_anc:
  "map (\<lambda>e. (t_ancestor e, t_depth e)) (reply_edges ch j es) =
   map (\<lambda>e. deeper (t_ancestor e, t_depth e)) es"
  by (induction es arbitrary: j) (auto simp: deeper_def)

lemma reply_edges_ancestors:
  "map (\<lambda>e. (t_ancestor e, t_depth e))
     (reply_edges ch j (filter (\<lambda>e. t_descendant e = x) (threads d))) =
   map deeper (ancestors_of d x)"
  by (simp add: reply_edges_anc ancestors_of_def)

lemma reply_edges_desc: "e \<in> set (reply_edges ch j es) \<Longrightarrow> t_descendant e = ch"
  by (induction es arbitrary: j) auto

lemma reply_edges_Nil: "(reply_edges ch j es = []) = (es = [])"
  by (cases es) auto

lemma ancestors_of_Nil: "(ancestors_of d x = []) = (filter (\<lambda>e. t_descendant e = x) (threads d) = [])"
  by (simp add: ancestors_of_def)

lemma ancestors_of_append:
  "threads d' = threads d @ es \<Longrightarrow>
   ancestors_of d' x =
     ancestors_of d x @ map (\<lambda>e. (t_ancestor e, t_depth e)) (filter (\<lambda>e. t_descendant e = x) es)"
  by (simp add: ancestors_of_def)

lemma ancestors_of_fresh: "fresh_ids d \<Longrightarrow> comments_seq d < x \<Longrightarrow> ancestors_of d x = []"
  by (auto simp: ancestors_of_def fresh_ids_def filter_empty_conv)

lemma addReply_ok:
  assumes "no_faults d" "ancestors_of d (ID p) \<noteq> []"
  shows "\<exists>r d'. addReply p c d = Inr (r, d')
     \<and> no_faults d'
     \<and> comments d' = comments d \<and> comments_seq d' = comments_seq d
     \<and> threads d' = threads d @ reply_edges (ID c) (threads_seq d)
          (filter (\<lambda>e. t_descendant e = ID p) (threads d))
     \<and> articles d' = articles d \<and> articles_seq d' = articles_seq d"
proof -
  have 1: "faults d = [] \<or> \<not> hd (faults d)" using assms(1) by (rule no_faults_ok)
  have nf1: "no_faults (d\<lparr>faults := tl (faults d)\<rparr>)" using assms(1) by (rule no_faults_tl)
  then have nf: "\<forall>f\<in>set (tl (faults d)). \<not> f" by (simp add: no_faults_def)
  have ne: "filter (\<lambda>e. t_descendant e = ID p) (threads d) \<noteq> []"
    using assms(2) by (simp add: ancestors_of_Nil)
  show ?thesis using 1 nf ne
    by (simp add: addReply_def QueryRow_eq Let_def no_faults_def reply_edges_Nil)
qed

lemma pop_loop_general:
  "- 1 \<le> i \<Longrightarrow> i < int (length th) \<Longrightarrow>
   \<exists>j. pop_loop th off i = Inr j \<and> - 1 \<le> j \<and> j \<le> i
     \<and> (0 \<le> j \<longrightarrow> offset (th ! nat j) < off)
     \<and> (\<forall>k. j < k \<and> k \<le> i \<longrightarrow> off \<le> offset (th ! nat k))"
proof (induction th off i rule: pop_loop.induct)
  case (1 th off i)
  show ?case
  proof (cases "0 \<le> i")
    case False
    then show ?thesis using "1.prems" by (subst pop_loop.simps) auto
  next
    case True
    then have inb: "\<not> length th \<le> nat i" using "1.prems" by auto
    show ?thesis
    proof (cases "offset (th ! nat i) < off")
      case lt: True
      then show ?thesis using True inb by (subst pop_loop.simps) auto
    next
      case ge: False
      have "\<exists>j. pop_loop th off (i - 1) = Inr j \<and> - 1 \<le> j \<and> j \<le> i - 1
          \<and> (0 \<le> j \<longrightarrow> offset (th ! nat j) < off)
          \<and> (\<forall>k. j < k \<and> k \<le> i - 1 \<longrightarrow> off \<le> offset (th ! nat k))"
        using "1.IH"[OF True inb ge] True "1.prems" by auto
      then obtain j where j: "pop_loop th off (i - 1) = Inr j" "- 1 \<le> j" "j \<le> i - 1"
          "0 \<le> j \<longrightarrow> offset (th ! nat j) < off"
          "\<forall>k. j < k \<and> k \<le> i - 1 \<longrightarrow> off \<le> offset (th ! nat k)" by blast
      have all: "\<forall>k. j < k \<and> k \<le> i \<longrightarrow> off \<le> offset (th ! nat k)"
      proof (intro allI impI)
        fix k assume k: "j < k \<and> k \<le> i"
        show "off \<le> offset (th ! nat k)"
        proof (cases "k = i")
          case True then show ?thesis using ge by simp
        next
          case False then show ?thesis using k j(5) by auto
        qed
      qed
      have "pop_loop th off i = Inr j" using True inb ge j(1) by (subst pop_loop.simps) simp
      then show ?thesis using j all by auto
    qed
  qed
qed

lemma pop_loop_sorted:
  assumes "sorted_wrt (<) (map offset th)"
  shows "pop_loop th off (int (length th) - 1) =
           Inr (int (length (takeWhile (\<lambda>x. offset x < off) th)) - 1)"
proof -
  obtain j where j: "pop_loop th off (int (length th) - 1) = Inr j" "- 1 \<le> j"
      "j \<le> int (length th) - 1" "0 \<le> j \<longrightarrow> offset (th ! nat j) < off"
      "\<forall>k. j < k \<and> k \<le> int (length th) - 1 \<longrightarrow> off \<le> offset (th ! nat k)"
    using pop_loop_general[of "int (length th) - 1" th off] by force
  let ?n = "nat (j + 1)"
  have mono: "offset (th ! a) < offset (th ! b)" if "a < b" "b < length th" for a b
    using assms that by (simp add: sorted_wrt_iff_nth_less)
  have below: "offset (th ! a) < off" if "a < ?n" for a
  proof -
    have 0: "0 \<le> j" using that by auto
    have "a \<le> nat j" using that by auto
    have jl: "nat j < length th" using j(3) 0 by auto
    have "offset (th ! a) \<le> offset (th ! nat j)"
    proof (cases "a = nat j")
      case True then show ?thesis by simp
    next
      case False
      then have "a < nat j" using \<open>a \<le> nat j\<close> by simp
      then show ?thesis using mono[OF _ jl] by fastforce
    qed
    then show ?thesis using j(4) 0 by auto
  qed
  have at: "\<not> offset (th ! ?n) < off" if "?n < length th"
  proof -
    have "j < j + 1 \<and> j + 1 \<le> int (length th) - 1" using that j(2) by auto
    then have "off \<le> offset (th ! nat (j + 1))" using j(5) by blast
    then show ?thesis by simp
  qed
  have "takeWhile (\<lambda>x. offset x < off) th = take ?n th"
    by (rule takeWhile_eq_take_P_nth) (use below at in auto)
  then have "length (takeWhile (\<lambda>x. offset x < off) th) = ?n"
    using j(3) by auto
  then show ?thesis using j(1,2) by simp
qed

lemma parseCommentHead_ok:
  assumes "head_ok r"
  shows "\<exists>c1 e. parseCommentHead r c0 = Inr (c1, e) \<and> offset c1 = offset c0
     \<and> CommentID c1 = CommentID c0 \<and> ArticleID c1 = ArticleID c0"
  using assms
  by (auto simp: parseCommentHead_def head_ok_def Let_def split: prod.splits option.splits)

lemma row_offset_eq: "offset (parseIndent r c) = row_offset r"
  by (simp add: row_offset_def parseIndent_def)

lemma scan_row_step:
  assumes inv: "stack_inv cp" and fr: "fresh_ids d" and nf: "no_faults d" and hd: "head_ok r"
    and st: "\<forall>x\<in>set (thread cp). ID x \<le> comments_seq d \<and> ancestors_of d (ID x) \<noteq> []"
  shows "\<exists>c cp' d'. scan_row a r (cp, d) = Inr (cp', d')
     \<and> ID c = comments_seq d + 1 \<and> offset c = row_offset r \<and> CommentID c = 0
     \<and> ArticleID c = art_ID a
     \<and> thread cp' = keep (row_offset r) (thread cp) @ [c]
     \<and> depth cp' = int (length (thread cp'))
     \<and> Comments cp' = Comments cp @ [c]
     \<and> no_faults d' \<and> comments_seq d' = comments_seq d + 1
     \<and> comments d' = comments d @ [\<lparr>c_id = ID c, c_comment_id = CommentID c,
           c_username = Username c, c_color = Color c, c_content = Content c,
           c_article_id = ArticleID c\<rparr>]
     \<and> (\<exists>es. threads d' = threads d @ es \<and> (\<forall>e\<in>set es. t_descendant e = comments_seq d + 1))
     \<and> ancestors_of d' (comments_seq d + 1) =
          (comments_seq d + 1, 0) #
            (if keep (row_offset r) (thread cp) = [] then []
             else map deeper (ancestors_of d (ID (last (keep (row_offset r) (thread cp))))))
     \<and> articles d' = articles d \<and> articles_seq d' = articles_seq d"
proof -
  let ?c0 = "parseIndent r (new_Comment (art_ID a))"
  let ?n = "comments_seq d + 1"
  let ?off = "row_offset r"
  obtain c1 e where c1: "parseCommentHead r ?c0 = Inr (c1, e)" "offset c1 = offset ?c0"
      "CommentID c1 = CommentID ?c0" "ArticleID c1 = ArticleID ?c0"
    using parseCommentHead_ok[OF hd, of ?c0] by blast
  let ?c2 = "parseCommentBody r c1"
  let ?c = "?c2\<lparr>ID := ?n\<rparr>"
  have c_off: "offset ?c = ?off"
    using c1(2) by (simp add: parseCommentBody_def row_offset_eq)
  have c_cid: "CommentID ?c = 0" "ArticleID ?c = art_ID a"
    using c1(3,4) by (simp_all add: parseCommentBody_def parseIndent_def new_Comment_def)
  obtain d1 where d1: "Comment_store ?c2 d = Inr (?c, d1)" "no_faults d1"
      "comments d1 = comments d @ [\<lparr>c_id = ?n, c_comment_id = CommentID ?c2,
           c_username = Username ?c2, c_color = Color ?c2, c_content = Content ?c2,
           c_article_id = ArticleID ?c2\<rparr>]"
      "comments_seq d1 = ?n"
      "threads d1 = threads d @ [\<lparr>t_id = threads_seq d + 1, t_ancestor = ?n,
           t_descendant = ?n, t_depth = 0\<rparr>]"
      "threads_seq d1 = threads_seq d + 1"
      "articles d1 = articles d" "articles_seq d1 = articles_seq d"
    using Comment_store_ok[OF nf, of ?c2] by blast
  let ?k = "keep ?off (thread cp)"
  have dep: "depth cp = int (length (thread cp))" and srt: "sorted_wrt (<) (map offset (thread cp))"
    using inv by (simp_all add: stack_inv_def)
  have pop: "pop_loop (thread cp) (offset ?c) (depth cp - 1) = Inr (int (length ?k) - 1)"
    using pop_loop_sorted[OF srt, of ?off] c_off dep by (simp add: keep_def)
  have klen: "length ?k \<le> length (thread cp)"
    by (simp add: keep_def length_takeWhile_le)
  have tk: "take (length ?k) (thread cp) = ?k"
    unfolding keep_def by (simp add: takeWhile_eq_take[symmetric])
  let ?th = "?k @ [?c]"
  let ?cp1 = "cp\<lparr>thread := ?th, depth := int (length ?th)\<rparr>"
  have a1: "ancestors_of d1 x = ancestors_of d x" if "x \<noteq> ?n" for x
    using that ancestors_of_append[OF d1(5), of x] by simp
  have a1n: "ancestors_of d1 ?n = [(?n, 0)]"
    using ancestors_of_append[OF d1(5), of ?n] ancestors_of_fresh[OF fr, of ?n] by simp
  show ?thesis
  proof (cases "?k = []")
    case True
    have res: "scan_row a r (cp, d) = Inr (?cp1\<lparr>Comments := Comments cp @ [?c]\<rparr>, d1)"
      using c1(1) d1(1) pop True klen tk by (simp add: scan_row_def Let_def)
    show ?thesis
      apply (rule exI[of _ ?c], rule exI[of _ "?cp1\<lparr>Comments := Comments cp @ [?c]\<rparr>"],
          rule exI[of _ d1])
      using res c_off c_cid d1 a1n True by simp
  next
    case False
    let ?p = "last ?k"
    have pin: "?p \<in> set (thread cp)"
      using False set_takeWhileD[of ?p "\<lambda>x. offset x < ?off" "thread cp"] last_in_set[OF False]
      by (simp add: keep_def)
    have pid: "ID ?p \<noteq> ?n" and panc: "ancestors_of d (ID ?p) \<noteq> []"
      using st pin by auto
    have panc1: "ancestors_of d1 (ID ?p) \<noteq> []" using a1[OF pid] panc by simp
    obtain rr d2 where d2: "addReply ?p ?c d1 = Inr (rr, d2)" "no_faults d2"
        "comments d2 = comments d1" "comments_seq d2 = comments_seq d1"
        "threads d2 = threads d1 @ reply_edges (ID ?c) (threads_seq d1)
          (filter (\<lambda>e. t_descendant e = ID ?p) (threads d1))"
        "articles d2 = articles d1" "articles_seq d2 = articles_seq d1"
      using addReply_ok[OF d1(2) panc1, of ?c] by blast
    have nth: "?th ! nat (int (length ?th) - 2) = ?p"
    proof -
      have "nat (int (length ?th) - 2) = length ?k - 1" by simp
      moreover have "length ?k - 1 < length ?k" using False by simp
      ultimately show ?thesis using False by (simp add: nth_append last_conv_nth)
    qed
    have gt: "int (length ?th) > 1" using False by (cases ?k) auto
    have res: "scan_row a r (cp, d) = Inr (?cp1\<lparr>Comments := Comments cp @ [?c]\<rparr>, d2)"
      using c1(1) d1(1) pop klen tk gt nth d2(1) by (simp add: scan_row_def Let_def)
    have flt: "filter (\<lambda>e. t_descendant e = ?n) (reply_edges ?n j es) = reply_edges ?n j es" for j es
      by (simp add: filter_id_conv reply_edges_desc)
    have a2: "ancestors_of d2 ?n = (?n, 0) # map deeper (ancestors_of d (ID ?p))"
      using ancestors_of_append[OF d2(5), of ?n] a1n a1[OF pid]
      by (simp add: flt reply_edges_ancestors)
    have es: "\<exists>es. threads d2 = threads d @ es \<and> (\<forall>e\<in>set es. t_descendant e = ?n)"
      using d2(5) d1(5) by (auto dest: reply_edges_desc)
    show ?thesis
      apply (rule exI[of _ ?c], rule exI[of _ "?cp1\<lparr>Comments := Comments cp @ [?c]\<rparr>"],
          rule exI[of _ d2])
      using res c_off c_cid d1(3,4,7,8) d2(2,3,4,6,7) a2 es False by simp
  qed
qed

lemma keep_sorted:
  assumes "sorted_wrt (<) (map offset th)" "offset c = off"
  shows "sorted_wrt (<) (map offset (keep off th @ [c]))"
proof -
  have "sorted_wrt (<) (map offset (keep off th))"
    using assms(1) unfolding keep_def
    by (metis sorted_wrt_append takeWhile_dropWhile_id map_append)
  moreover have "\<forall>x\<in>set (keep off th). offset x < off"
    unfolding keep_def by (auto dest: set_takeWhileD)
  ultimately show ?thesis using assms(2) by (simp add: sorted_wrt_append)
qed

lemma keep_subset: "x \<in> set (keep off th) \<Longrightarrow> x \<in> set th"
  unfolding keep_def by (rule set_takeWhileD[THEN conjunct1])

lemma ancestors_of_other:
  assumes "threads d' = threads d @ es" "\<forall>e\<in>set es. t_descendant e = n" "x \<noteq> n"
  shows "ancestors_of d' x = ancestors_of d x"
proof -
  have "filter (\<lambda>e. t_descendant e = x) es = []" using assms(2,3) by (auto simp: filter_empty_conv)
  then show ?thesis using ancestors_of_append[OF assms(1), of x] by simp
qed

lemma scan_row_inv:
  assumes "scan_inv (cp, d)" "head_ok r"
  shows "\<exists>c cp' d'. scan_row a r (cp, d) = Inr (cp', d') \<and> scan_inv (cp', d')
     \<and> summary (cp', d') = astep (summary (cp, d)) (row_offset r)
     \<and> ID c = comments_seq d + 1 \<and> offset c = row_offset r \<and> CommentID c = 0
     \<and> ArticleID c = art_ID a
     \<and> thread cp' = keep (row_offset r) (thread cp) @ [c]
     \<and> depth cp' = int (length (thread cp'))
     \<and> Comments cp' = Comments cp @ [c]
     \<and> comments_seq d' = comments_seq d + 1
     \<and> comments d' = comments d @ [\<lparr>c_id = ID c, c_comment_id = CommentID c,
           c_username = Username c, c_color = Color c, c_content = Content c,
           c_article_id = ArticleID c\<rparr>]
     \<and> (\<exists>es. threads d' = threads d @ es \<and> (\<forall>e\<in>set es. t_descendant e = comments_seq d + 1))
     \<and> ancestors_of d' (comments_seq d + 1) =
          (comments_seq d + 1, 0) #
            (if keep (row_offset r) (thread cp) = [] then []
             else map deeper (ancestors_of d (ID (last (keep (row_offset r) (thread cp))))))
     \<and> articles d' = articles d \<and> articles_seq d' = articles_seq d"
proof -
  let ?n = "comments_seq d + 1"
  let ?off = "row_offset r"
  let ?k = "keep ?off (thread cp)"
  have inv: "stack_inv cp" and fr: "fresh_ids d" and nf: "no_faults d"
    and st: "\<forall>x\<in>set (thread cp). ID x \<le> comments_seq d \<and> ancestors_of d (ID x) \<noteq> []"
    using assms(1) by (simp_all add: scan_inv_def)
  obtain c cp' d' where s: "scan_row a r (cp, d) = Inr (cp', d')"
     "ID c = ?n" "offset c = ?off" "CommentID c = 0" "ArticleID c = art_ID a"
     "thread cp' = ?k @ [c]"
     "depth cp' = int (length (thread cp'))"
     "Comments cp' = Comments cp @ [c]"
     "no_faults d'" "comments_seq d' = ?n"
     "comments d' = comments d @ [\<lparr>c_id = ID c, c_comment_id = CommentID c,
           c_username = Username c, c_color = Color c, c_content = Content c,
           c_article_id = ArticleID c\<rparr>]"
     "\<exists>es. threads d' = threads d @ es \<and> (\<forall>e\<in>set es. t_descendant e = ?n)"
     "ancestors_of d' ?n = (?n, 0) # (if ?k = [] then [] else map deeper (ancestors_of d (ID (last ?k))))"
     "articles d' = articles d" "articles_seq d' = articles_seq d"
    using scan_row_step[OF inv fr nf assms(2) st, of a] by blast
  obtain es where es: "threads d' = threads d @ es" "\<forall>e\<in>set es. t_descendant e = ?n"
    using s(12) by blast
  have other: "ancestors_of d' x = ancestors_of d x" if "x \<noteq> ?n" for x
    using ancestors_of_other[OF es that] .
  have srt: "sorted_wrt (<) (map offset (thread cp))" using inv by (simp add: stack_inv_def)
  have i1: "stack_inv cp'"
    using s(6,7) keep_sorted[OF srt s(3)] by (simp add: stack_inv_def)
  have i2: "fresh_ids d'"
    using fr es s(10) by (auto simp: fresh_ids_def)
  have i3: "\<forall>x\<in>set (thread cp'). ID x \<le> comments_seq d' \<and> ancestors_of d' (ID x) \<noteq> []"
  proof
    fix x assume "x \<in> set (thread cp')"
    then consider "x = c" | "x \<in> set (thread cp)" using s(6) keep_subset by auto
    then show "ID x \<le> comments_seq d' \<and> ancestors_of d' (ID x) \<noteq> []"
    proof cases
      case 1 then show ?thesis using s(2,10,13) by simp
    next
      case 2
      then have "ID x \<le> comments_seq d" "ancestors_of d (ID x) \<noteq> []" using st by auto
      then show ?thesis using other[of "ID x"] s(10) by simp
    qed
  qed
  have inv': "scan_inv (cp', d')" using i1 i2 i3 s(9) by (simp add: scan_inv_def)
  have sp: "stack_pairs cp' = takeWhile (\<lambda>p. snd p < ?off) (stack_pairs cp) @ [(?n, ?off)]"
    using s(2,3,6) by (simp add: stack_pairs_def keep_def takeWhile_map comp_def)
  have kp: "takeWhile (\<lambda>p. snd p < ?off) (stack_pairs cp) = map (\<lambda>c. (ID c, offset c)) ?k"
    by (simp add: stack_pairs_def keep_def takeWhile_map comp_def)
  have an: "ancestors_of d' = (ancestors_of d)(?n := (?n, 0) #
      (if takeWhile (\<lambda>p. snd p < ?off) (stack_pairs cp) = [] then []
       else map deeper (ancestors_of d (fst (last (takeWhile (\<lambda>p. snd p < ?off) (stack_pairs cp)))))))"
  proof
    fix x show "ancestors_of d' x = ((ancestors_of d)(?n := (?n, 0) #
      (if takeWhile (\<lambda>p. snd p < ?off) (stack_pairs cp) = [] then []
       else map deeper (ancestors_of d (fst (last (takeWhile (\<lambda>p. snd p < ?off) (stack_pairs cp)))))))) x"
      using other[of x] s(13) by (cases "x = ?n") (simp_all add: kp last_map)
  qed
  have sm: "summary (cp', d') = astep (summary (cp, d)) ?off"
    using sp an s(2,8,10) by (simp add: summary_def astep_def Let_def)
  show ?thesis
    apply (rule exI[of _ c], rule exI[of _ cp'], rule exI[of _ d'])
    using s inv' sm by simp
qed

lemma scan_rows_run:
  assumes "scan_inv s" "\<forall>r\<in>set rows. head_ok r"
  shows "\<exists>s'. scan_rows a rows s = Inr s' \<and> scan_inv s'
     \<and> summary s' = foldl astep (summary s) (map row_offset rows)"
  using assms
proof (induction rows arbitrary: s)
  case Nil
  then show ?case by simp
next
  case (Cons r rs)
  obtain cp d where s: "s = (cp, d)" by (cases s)
  obtain cp' d' where 1: "scan_row a r (cp, d) = Inr (cp', d')" "scan_inv (cp', d')"
      "summary (cp', d') = astep (summary (cp, d)) (row_offset r)"
    using scan_row_inv[of cp d r a] Cons.prems s by auto
  obtain s' where 2: "scan_rows a rs (cp', d') = Inr s'" "scan_inv s'"
      "summary s' = foldl astep (summary (cp', d')) (map row_offset rs)"
    using Cons.IH[OF 1(2)] Cons.prems(2) by auto
  show ?case using 1 2 s by simp
qed

lemma scan_inv_start: "fresh_ids d \<Longrightarrow> no_faults d \<Longrightarrow> scan_inv (new_CommentPage, d)"
  by (simp add: scan_inv_def new_CommentPage_def stack_inv_def)

lemma summary_start:
  "summary (new_CommentPage, d) = ([], ancestors_of d, comments_seq d, [])"
  by (simp add: summary_def new_CommentPage_def stack_pairs_def)

lemma Comment_store_result:
  "Comment_store c d = Inr (c', d') \<Longrightarrow> c' = c\<lparr>ID := comments_seq d + 1\<rparr>"
  by (auto simp: Comment_store_def QueryRow_eq Let_def split: if_splits bool.splits)

lemma parseCommentHead_offset:
  "parseCommentHead r c0 = Inr (c1, e) \<Longrightarrow> offset c1 = offset c0"
  by (auto simp: parseCommentHead_def Let_def split: if_splits prod.splits option.splits)

lemma scan_row_stack:
  assumes "stack_inv cp" "scan_row a r (cp, d) = Inr (cp', d')"
  shows "stack_inv cp' \<and> thread cp' = keep (row_offset r) (thread cp) @ [last (Comments cp')]
     \<and> Comments cp' = Comments cp @ [last (Comments cp')]
     \<and> offset (last (Comments cp')) = row_offset r"
proof -
  let ?c0 = "parseIndent r (new_Comment (art_ID a))"
  let ?off = "row_offset r"
  let ?k = "keep ?off (thread cp)"
  obtain c1 e where c1: "parseCommentHead r ?c0 = Inr (c1, e)"
    using assms(2) by (auto simp: scan_row_def Let_def split: sum.splits)
  obtain c d1 where st: "Comment_store (parseCommentBody r c1) d = Inr (c, d1)"
    using assms(2) c1 by (auto simp: scan_row_def Let_def split: sum.splits)
  have c_off: "offset c = ?off"
    using Comment_store_result[OF st] parseCommentHead_offset[OF c1]
    by (simp add: parseCommentBody_def row_offset_eq)
  have dep: "depth cp = int (length (thread cp))" and srt: "sorted_wrt (<) (map offset (thread cp))"
    using assms(1) by (simp_all add: stack_inv_def)
  have pop: "pop_loop (thread cp) (offset c) (depth cp - 1) = Inr (int (length ?k) - 1)"
    using pop_loop_sorted[OF srt, of ?off] c_off dep by (simp add: keep_def)
  have tk: "take (length ?k) (thread cp) = ?k"
    unfolding keep_def by (simp add: takeWhile_eq_take[symmetric])
  have cp': "thread cp' = ?k @ [c] \<and> depth cp' = int (length (?k @ [c]))
      \<and> Comments cp' = Comments cp @ [c]"
    using assms(2) c1 st pop tk
    by (auto simp: scan_row_def Let_def split: sum.splits if_splits)
  have "stack_inv cp'"
    using cp' keep_sorted[OF srt c_off] by (simp add: stack_inv_def)
  then show ?thesis using cp' c_off by simp
qed

lemma scan_rows_snoc:
  "scan_rows a (rs @ [r]) s =
     (case scan_rows a rs s of Inl e \<Rightarrow> Inl e | Inr s' \<Rightarrow> scan_row a r s')"
  by (induction rs arbitrary: s) (auto split: sum.splits)

lemma scan_rows_stack:
  assumes "stack_inv cp" "scan_rows a rows (cp, d) = Inr (cp', d')"
  shows "stack_inv cp' \<and>
     (rows \<noteq> [] \<longrightarrow> thread cp' \<noteq> [] \<and> last (thread cp') = last (Comments cp')
        \<and> offset (last (thread cp')) = row_offset (last rows))"
  using assms
proof (induction rows arbitrary: cp' d' rule: rev_induct)
  case Nil
  then show ?case by simp
next
  case (snoc r rs)
  obtain cp1 d1 where 1: "scan_rows a rs (cp, d) = Inr (cp1, d1)"
      and 2: "scan_row a r (cp1, d1) = Inr (cp', d')"
    using snoc.prems(2) by (auto simp: scan_rows_snoc split: sum.splits)
  have "stack_inv cp1" using snoc.IH[OF snoc.prems(1) 1] by simp
  then show ?case using scan_row_stack[OF _ 2] by simp
qed

lemma reply_targets_step:
  assumes "scan_row a r (cp, d) = Inr (cp', d')"
    "thread cp' = k @ [c]" "depth cp' = int (length (thread cp'))"
  shows "reply_targets a (r # rs) (cp, d) =
     (if k = [] then [] else [(ID c, ID (last k))]) @ reply_targets a rs (cp', d')"
proof (cases "k = []")
  case True
  then show ?thesis using assms by simp
next
  case False
  have "nat (int (length (k @ [c])) - 2) = length k - 1" by simp
  moreover have "length k - 1 < length k" using False by simp
  ultimately have "(k @ [c]) ! nat (int (length (k @ [c])) - 2) = last k"
    using False by (simp add: nth_append last_conv_nth)
  moreover have "int (length (k @ [c])) > 1" using False by (cases k) auto
  ultimately show ?thesis using assms False by simp
qed

lemma map_of_snoc_other:
  "x \<noteq> y \<Longrightarrow> map_of (ps @ [(y, p)]) x = map_of ps x"
  by (simp add: map_add_def split: option.splits)

lemma map_of_snoc_new:
  "\<forall>q\<in>set ps. fst q \<noteq> y \<Longrightarrow> map_of (ps @ [(y, p)]) y = Some p"
proof -
  assume "\<forall>q\<in>set ps. fst q \<noteq> y"
  then have "map_of ps y = None" by (force simp: map_of_eq_None_iff)
  then show ?thesis by (simp add: map_add_def)
qed

lemma linked_step:
  assumes l: "linked n0 ps d" and n0: "n0 \<le> comments_seq d"
    and seq: "comments_seq d' = comments_seq d + 1"
    and old: "\<And>x. x \<noteq> comments_seq d + 1 \<Longrightarrow> ancestors_of d' x = ancestors_of d x"
    and new: "ancestors_of d' (comments_seq d + 1) =
          (comments_seq d + 1, 0) # (if k = [] then [] else map deeper (ancestors_of d (ID (last k))))"
    and par: "k \<noteq> [] \<Longrightarrow> n0 < ID (last k) \<and> ID (last k) \<le> comments_seq d"
  shows "linked n0 (ps @ (if k = [] then [] else [(comments_seq d + 1, ID (last k))])) d'"
proof -
  let ?n = "comments_seq d + 1"
  let ?ps' = "ps @ (if k = [] then [] else [(?n, ID (last k))])"
  have keys: "\<forall>q\<in>set ps. fst q \<le> comments_seq d" using l by (simp add: linked_def)
  have keys_ne: "\<forall>q\<in>set ps. fst q \<noteq> ?n" using keys by force
  have none: "map_of ps ?n = None" using keys_ne by (force simp: map_of_eq_None_iff)
  have 1: "\<forall>q\<in>set ?ps'. fst q \<le> comments_seq d'" using keys seq by auto
  have 2: "case map_of ?ps' x of
            None \<Rightarrow> ancestors_of d' x = [(x, 0)]
          | Some p \<Rightarrow> n0 < p \<and> p < x
              \<and> ancestors_of d' x = (x, 0) # map deeper (ancestors_of d' p)"
    if x: "n0 < x" "x \<le> comments_seq d'" for x
  proof (cases "x = ?n")
    case True
    show ?thesis
    proof (cases "k = []")
      case kn: True
      have m: "map_of ?ps' x = None" using True none kn by simp
      have "ancestors_of d' x = [(x, 0)]" using True new kn by simp
      then show ?thesis unfolding m by simp
    next
      case kf: False
      have m: "map_of ?ps' x = Some (ID (last k))"
        using True kf map_of_snoc_new[OF keys_ne, of "ID (last k)"]
        by (simp only: if_False)
      have "ancestors_of d' (ID (last k)) = ancestors_of d (ID (last k))"
        using old[of "ID (last k)"] par[OF kf] by simp
      then have "n0 < ID (last k) \<and> ID (last k) < x
          \<and> ancestors_of d' x = (x, 0) # map deeper (ancestors_of d' (ID (last k)))"
        using True new kf par[OF kf] by simp
      then show ?thesis unfolding m by simp
    qed
  next
    case False
    then have xs: "x \<le> comments_seq d" using x seq by simp
    have m: "map_of ?ps' x = map_of ps x"
    proof (cases "k = []")
      case True
      then show ?thesis by simp
    next
      case kf: False
      then show ?thesis using map_of_snoc_other[OF False, of ps "ID (last k)"]
        by (simp only: if_False)
    qed
    have c: "case map_of ps x of
            None \<Rightarrow> ancestors_of d x = [(x, 0)]
          | Some p \<Rightarrow> n0 < p \<and> p < x
              \<and> ancestors_of d x = (x, 0) # map deeper (ancestors_of d p)"
      using l x(1) xs by (simp add: linked_def)
    show ?thesis
    proof (cases "map_of ps x")
      case None
      then have "ancestors_of d' x = [(x, 0)]" using c old[OF False] by simp
      then show ?thesis unfolding m None by simp
    next
      case (Some p)
      then have p: "n0 < p" "p < x" "ancestors_of d x = (x, 0) # map deeper (ancestors_of d p)"
        using c by simp_all
      have "p \<noteq> ?n" using p(2) xs by simp
      then have "n0 < p \<and> p < x
              \<and> ancestors_of d' x = (x, 0) # map deeper (ancestors_of d' p)"
        using p old[OF False] old[of p] by simp
      then show ?thesis unfolding m Some by simp
    qed
  qed
  show ?thesis unfolding linked_def using 1 2 by blast
qed

lemma scan_rows_linked:
  assumes "scan_inv s" "\<forall>r\<in>set rows. head_ok r" "linked n0 ps (snd s)"
    "\<forall>x\<in>set (thread (fst s)). n0 < ID x" "n0 \<le> comments_seq (snd s)"
  shows "\<exists>s'. scan_rows a rows s = Inr s' \<and> scan_inv s'
     \<and> linked n0 (ps @ reply_targets a rows s) (snd s')
     \<and> comments_seq (snd s') = comments_seq (snd s) + int (length rows)
     \<and> (\<exists>cs. comments (snd s') = comments (snd s) @ cs \<and> length cs = length rows
           \<and> (\<forall>c\<in>set cs. comments_seq (snd s) < c_id c \<and> c_id c \<le> comments_seq (snd s')
                  \<and> c_comment_id c = 0 \<and> c_article_id c = art_ID a))"
  using assms
proof (induction rows arbitrary: s ps)
  case Nil
  then show ?case by simp
next
  case (Cons r rs)
  obtain cp d where s: "s = (cp, d)" by (cases s)
  let ?n = "comments_seq d + 1"
  let ?k = "keep (row_offset r) (thread cp)"
  have hr: "head_ok r" and hrs: "\<forall>r\<in>set rs. head_ok r" using Cons.prems(2) by simp_all
  obtain c cp' d' where 1: "scan_row a r (cp, d) = Inr (cp', d')" "scan_inv (cp', d')"
      "ID c = ?n" "CommentID c = 0" "ArticleID c = art_ID a"
      "thread cp' = ?k @ [c]" "depth cp' = int (length (thread cp'))"
      "comments_seq d' = ?n"
      "comments d' = comments d @ [\<lparr>c_id = ID c, c_comment_id = CommentID c,
           c_username = Username c, c_color = Color c, c_content = Content c,
           c_article_id = ArticleID c\<rparr>]"
      "\<exists>es. threads d' = threads d @ es \<and> (\<forall>e\<in>set es. t_descendant e = ?n)"
      "ancestors_of d' ?n = (?n, 0) #
            (if ?k = [] then [] else map deeper (ancestors_of d (ID (last ?k))))"
    using scan_row_inv[of cp d r a] Cons.prems(1) s hr by blast
  obtain es where es: "threads d' = threads d @ es" "\<forall>e\<in>set es. t_descendant e = ?n"
    using 1(10) by blast
  have old: "ancestors_of d' x = ancestors_of d x" if "x \<noteq> ?n" for x
    using ancestors_of_other[OF es that] .
  have stk: "\<forall>x\<in>set (thread cp). n0 < ID x \<and> ID x \<le> comments_seq d"
    using Cons.prems(1,4) s by (auto simp: scan_inv_def)
  have par: "n0 < ID (last ?k) \<and> ID (last ?k) \<le> comments_seq d" if "?k \<noteq> []"
    using stk keep_subset[OF last_in_set[OF that]] by blast
  have n0: "n0 \<le> comments_seq d" using Cons.prems(5) s by simp
  have l: "linked n0 ps d" using Cons.prems(3) s by simp
  let ?new = "if ?k = [] then [] else [(?n, ID (last ?k))]"
  have l': "linked n0 (ps @ ?new) d'"
    using linked_step[OF l n0 1(8) old 1(11) par] by simp
  have rt: "reply_targets a (r # rs) (cp, d) = ?new @ reply_targets a rs (cp', d')"
    using reply_targets_step[OF 1(1) 1(6) 1(7)] 1(3) by simp
  have stk': "\<forall>x\<in>set (thread (fst (cp', d'))). n0 < ID x"
    using 1(3,6) stk n0 keep_subset by auto
  have n0': "n0 \<le> comments_seq (snd (cp', d'))" using 1(8) n0 by simp
  have l'': "linked n0 (ps @ ?new) (snd (cp', d'))" using l' by simp
  obtain s' where 2: "scan_rows a rs (cp', d') = Inr s'" "scan_inv s'"
      "linked n0 ((ps @ ?new) @ reply_targets a rs (cp', d')) (snd s')"
      "comments_seq (snd s') = comments_seq (snd (cp', d')) + int (length rs)"
      "\<exists>cs. comments (snd s') = comments (snd (cp', d')) @ cs \<and> length cs = length rs
           \<and> (\<forall>c\<in>set cs. comments_seq (snd (cp', d')) < c_id c \<and> c_id c \<le> comments_seq (snd s')
                  \<and> c_comment_id c = 0 \<and> c_article_id c = art_ID a)"
    using Cons.IH[OF 1(2) hrs l'' stk' n0'] by blast
  obtain cs where cs: "comments (snd s') = comments d' @ cs" "length cs = length rs"
      "\<forall>c\<in>set cs. ?n < c_id c \<and> c_id c \<le> comments_seq (snd s')
                  \<and> c_comment_id c = 0 \<and> c_article_id c = art_ID a"
    using 2(5) 1(8) by auto
  let ?row = "\<lparr>c_id = ID c, c_comment_id = CommentID c,
           c_username = Username c, c_color = Color c, c_content = Content c,
           c_article_id = ArticleID c\<rparr>"
  have seq': "comments_seq (snd s') = comments_seq d + int (length (r # rs))"
    using 2(4) 1(8) by simp
  have c1: "comments (snd s') = comments d @ (?row # cs)" using cs(1) 1(9) by simp
  have c2: "\<forall>c\<in>set (?row # cs). comments_seq d < c_id c \<and> c_id c \<le> comments_seq (snd s')
                  \<and> c_comment_id c = 0 \<and> c_article_id c = art_ID a"
    using cs(3) 1(3,4,5) seq' by auto
  have c3: "length (?row # cs) = length (r # rs)" using cs(2) by simp
  have "\<exists>cs. comments (snd s') = comments d @ cs \<and> length cs = length (r # rs)
           \<and> (\<forall>c\<in>set cs. comments_seq d < c_id c \<and> c_id c \<le> comments_seq (snd s')
                  \<and> c_comment_id c = 0 \<and> c_article_id c = art_ID a)"
    using c1 c2 c3 by blast
  moreover have "scan_rows a (r # rs) s = Inr s'" using 1(1) 2(1) s by simp
  moreover have "linked n0 (ps @ reply_targets a (r # rs) s) (snd s')"
    using 2(3) rt s by simp
  ultimately show ?case using 2(2) seq' s by auto
qed

lemma linked_wf:
  assumes "linked n0 ps d"
  shows "n0 < x \<Longrightarrow> x \<le> comments_seq d \<Longrightarrow>
     distinct (ancestors_of d x) \<and> (\<forall>q\<in>set (ancestors_of d x). 0 \<le> snd q)"
proof (induction "nat (x - n0)" arbitrary: x rule: less_induct)
  case less
  have c: "case map_of ps x of
            None \<Rightarrow> ancestors_of d x = [(x, 0)]
          | Some p \<Rightarrow> n0 < p \<and> p < x
              \<and> ancestors_of d x = (x, 0) # map deeper (ancestors_of d p)"
    using assms less.prems by (simp add: linked_def)
  show ?case
  proof (cases "map_of ps x")
    case None
    then show ?thesis using c by simp
  next
    case (Some p)
    then have p: "n0 < p" "p < x" "ancestors_of d x = (x, 0) # map deeper (ancestors_of d p)"
      using c by simp_all
    have ih: "distinct (ancestors_of d p)" "\<forall>q\<in>set (ancestors_of d p). 0 \<le> snd q"
      using less.hyps[of p] p(1,2) less.prems by auto
    have inj: "inj_on deeper (set (ancestors_of d p))"
      by (auto simp: inj_on_def deeper_def prod_eq_iff)
    have "(x, 0) \<notin> set (map deeper (ancestors_of d p))"
      using ih(2) by (auto simp: deeper_def)
    moreover have "distinct (map deeper (ancestors_of d p))"
      using ih(1) inj by (simp add: distinct_map)
    moreover have "\<forall>q\<in>set (map deeper (ancestors_of d p)). 0 \<le> snd q"
      using ih(2) by (auto simp: deeper_def)
    ultimately show ?thesis using p(3) by simp
  qed
qed

lemma edge_count_ancestors:
  "edge_count d a x k = length (filter (\<lambda>q. q = (a, k)) (ancestors_of d x))"
proof -
  have "length (filter (\<lambda>e. t_ancestor e = a \<and> t_descendant e = x \<and> t_depth e = k) es) =
        length (filter (\<lambda>q. q = (a, k))
          (map (\<lambda>e. (t_ancestor e, t_depth e)) (filter (\<lambda>e. t_descendant e = x) es)))" for es
    by (induction es) auto
  then show ?thesis by (simp add: edge_count_def ancestors_of_def)
qed

lemma distinct_count_one:
  "distinct xs \<Longrightarrow> x \<in> set xs \<Longrightarrow> length (filter (\<lambda>q. q = x) xs) = 1"
  by (induction xs) (auto simp: filter_empty_conv)

lemma in_ancestors_of:
  "e \<in> set (threads d) \<Longrightarrow> (t_ancestor e, t_depth e) \<in> set (ancestors_of d (t_descendant e))"
  by (auto simp: ancestors_of_def)

lemma linked_start: "linked (comments_seq d) [] d"
  by (auto simp: linked_def)

lemma scan_linked_start:
  assumes "fresh_ids d" "no_faults d" "\<forall>r\<in>set rows. head_ok r"
  shows "\<exists>cp' d'. CommentPage_parse new_CommentPage a (Some rows) d = Inr (cp', d')
     \<and> fresh_ids d'
     \<and> linked (comments_seq d) (reply_targets a rows (new_CommentPage, d)) d'
     \<and> comments_seq d' = comments_seq d + int (length rows)
     \<and> (\<exists>cs. comments d' = comments d @ cs \<and> length cs = length rows
           \<and> (\<forall>c\<in>set cs. comments_seq d < c_id c \<and> c_id c \<le> comments_seq d'
                  \<and> c_comment_id c = 0 \<and> c_article_id c = art_ID a))"
proof -
  have i: "scan_inv (new_CommentPage, d)" using assms(1,2) by (rule scan_inv_start)
  have l: "linked (comments_seq d) [] (snd (new_CommentPage, d))" by (simp add: linked_start)
  have t: "\<forall>x\<in>set (thread (fst (new_CommentPage, d))). comments_seq d < ID x"
    by (simp add: new_CommentPage_def)
  have n: "comments_seq d \<le> comments_seq (snd (new_CommentPage, d))" by simp
  obtain s' where s': "scan_rows a rows (new_CommentPage, d) = Inr s'" "scan_inv s'"
     "linked (comments_seq d) ([] @ reply_targets a rows (new_CommentPage, d)) (snd s')"
     "comments_seq (snd s') = comments_seq (snd (new_CommentPage, d)) + int (length rows)"
     "\<exists>cs. comments (snd s') = comments (snd (new_CommentPage, d)) @ cs \<and> length cs = length rows
           \<and> (\<forall>c\<in>set cs. comments_seq (snd (new_CommentPage, d)) < c_id c
                  \<and> c_id c \<le> comments_seq (snd s')
                  \<and> c_comment_id c = 0 \<and> c_article_id c = art_ID a)"
    using scan_rows_linked[OF i assms(3) l t n, of a] by blast
  obtain cp' d' where p: "s' = (cp', d')" by (cases s')
  have "fresh_ids d'" using s'(2) p by (simp add: scan_inv_def)
  then show ?thesis using s' p by (simp add: CommentPage_parse_def)
qed

lemma Comment_store_prefix: "prefix (threads d) (threads (final_db (Comment_store c d)))"
  by (auto simp: Comment_store_def QueryRow_eq Let_def final_db_def split: bool.splits)

lemma addReply_prefix: "prefix (threads d) (threads (final_db (addReply p c d)))"
  by (auto simp: addReply_def QueryRow_eq Let_def final_db_def split: bool.splits)

lemma Article_store_prefix: "prefix (threads d) (threads (final_db (Article_store x d)))"
  by (auto simp: Article_store_def QueryRow_eq Let_def final_db_def split: bool.splits)

lemma final_db_Inl: "r = Inl (x, d') \<Longrightarrow> final_db r = d'"
  by (simp add: final_db_def)

lemma final_db_Inr: "r = Inr (v, d') \<Longrightarrow> final_db r = d'"
  by (simp add: final_db_def)

lemma scan_row_prefix: "prefix (threads d) (threads (final_db (scan_row a r (cp, d))))"
proof -
  let ?c0 = "parseIndent r (new_Comment (art_ID a))"
  show ?thesis
  proof (cases "parseCommentHead r ?c0")
    case (Inl x)
    then show ?thesis by (simp add: scan_row_def final_db_def)
  next
    case (Inr ce)
    obtain c1 e where ce: "ce = (c1, e)" by (cases ce)
    let ?c2 = "parseCommentBody r c1"
    have p1: "prefix (threads d) (threads (final_db (Comment_store ?c2 d)))"
      by (rule Comment_store_prefix)
    show ?thesis
    proof (cases "Comment_store ?c2 d")
      case (Inl xd)
      then show ?thesis using Inr ce p1 by (simp add: scan_row_def Let_def final_db_def)
    next
      case st: (Inr cd)
      obtain c d1 where cd: "cd = (c, d1)" by (cases cd)
      have p2: "prefix (threads d) (threads d1)"
        using p1 st cd by (simp add: final_db_def)
      have p3: "prefix (threads d1) (threads (final_db (addReply q c d1)))" for q
        by (rule addReply_prefix)
      have p4: "prefix (threads d) (threads (final_db (addReply q c d1)))" for q
        using p2 p3 by (rule prefix_order.trans)
      have p5: "addReply q c d1 = Inl xd \<Longrightarrow> prefix (threads d) (threads (snd xd))" for q xd
        using p4[of q] by (cases xd) (simp add: final_db_def)
      have p6: "addReply q c d1 = Inr (v, d2) \<Longrightarrow> prefix (threads d) (threads d2)" for q v d2
        using p4[of q] by (simp add: final_db_def)
      show ?thesis using Inr ce st cd p2 p5 p6
        by (auto simp: scan_row_def Let_def final_db_def split: sum.splits if_splits prod.splits)
    qed
  qed
qed

lemma scan_rows_prefix: "prefix (threads (snd s)) (threads (final_db (scan_rows a rows s)))"
proof (induction rows arbitrary: s)
  case Nil
  then show ?case by (cases s) (simp add: final_db_def)
next
  case (Cons r rs)
  obtain cp d where s: "s = (cp, d)" by (cases s)
  have 1: "prefix (threads d) (threads (final_db (scan_row a r (cp, d))))"
    by (rule scan_row_prefix)
  show ?case
  proof (cases "scan_row a r (cp, d)")
    case (Inl e)
    then show ?thesis using 1 s by (simp add: final_db_def)
  next
    case (Inr s1)
    have "prefix (threads d) (threads (snd s1))" using 1 Inr by (cases s1) (simp add: final_db_def)
    then show ?thesis using Cons.IH[of s1] Inr s by (auto intro: prefix_order.trans)
  qed
qed

lemma CommentPage_parse_prefix:
  "prefix (threads d) (threads (final_db (CommentPage_parse cp a doc d)))"
  using scan_rows_prefix[of "(cp, d)" a] 
  by (cases doc) (simp_all add: CommentPage_parse_def final_db_def)

lemma Article_store_ok:
  assumes "no_faults d"
  shows "\<exists>d'. Article_store a d = Inr (a\<lparr>art_ID := articles_seq d + 1\<rparr>, d')
     \<and> no_faults d'
     \<and> articles d' = articles d @ [articles_row a (articles_seq d + 1)]
     \<and> articles_seq d' = articles_seq d + 1
     \<and> comments d' = comments d \<and> threads d' = threads d"
proof -
  have 1: "faults d = [] \<or> \<not> hd (faults d)" using assms by (rule no_faults_ok)
  have "no_faults (d\<lparr>faults := tl (faults d)\<rparr>)" using assms by (rule no_faults_tl)
  then have nf: "\<forall>f\<in>set (tl (faults d)). \<not> f" by (simp add: no_faults_def)
  show ?thesis using 1 nf
    by (simp add: Article_store_def QueryRow_eq Let_def no_faults_def articles_row_def)
qed

lemma parseSubtextRow_snd: "snd (parseSubtextRow s a) = (s \<noteq> None)"
  by (cases s) (simp_all add: parseSubtextRow_def Let_def)

lemma front_rows_append:
  "front_rows (xs @ ys) s =
     (case front_rows xs s of Inl e \<Rightarrow> Inl e | Inr s' \<Rightarrow> front_rows ys s')"
  by (induction xs arbitrary: s) (auto split: sum.splits)

lemma Comment_store_fault:
  "faults d = True # fs \<Longrightarrow> Comment_store c d = Inl (Fatal, d\<lparr>faults := fs\<rparr>)"
  by (simp add: Comment_store_def QueryRow_eq)

lemma Comment_store_fault2:
  "faults d = False # True # fs \<Longrightarrow>
   Comment_store c d = Inl (Fatal, d\<lparr>faults := fs,
     comments := comments d @ [\<lparr>c_id = comments_seq d + 1, c_comment_id = CommentID c,
        c_username = Username c, c_color = Color c, c_content = Content c,
        c_article_id = ArticleID c\<rparr>],
     comments_seq := comments_seq d + 1\<rparr>)"
  by (simp add: Comment_store_def QueryRow_eq Let_def)

lemma scan_row_fault:
  assumes "head_ok r" "faults d = True # fs"
  shows "scan_row a r (cp, d) = Inl (Fatal, d\<lparr>faults := fs\<rparr>)"
proof -
  obtain c1 e where "parseCommentHead r (parseIndent r (new_Comment (art_ID a))) = Inr (c1, e)"
    using parseCommentHead_ok[OF assms(1)] by blast
  then show ?thesis using Comment_store_fault[OF assms(2)]
    by (simp add: scan_row_def Let_def)
qed

lemma scan_rows_append:
  "scan_rows a (xs @ ys) s =
     (case scan_rows a xs s of Inl e \<Rightarrow> Inl e | Inr s' \<Rightarrow> scan_rows a ys s')"
  by (induction xs arbitrary: s) (auto split: sum.splits)

lemma Poll_articles_append:
  "Poll_articles fetch (xs @ ys) d =
     (case Poll_articles fetch xs d of Inl e \<Rightarrow> Inl e | Inr d' \<Rightarrow> Poll_articles fetch ys d')"
  by (induction xs arbitrary: d) (auto split: sum.splits)

lemma addReply_fault:
  "faults d = True # fs \<Longrightarrow> addReply p c d = Inl (Fatal, d\<lparr>faults := fs\<rparr>)"
  by (simp add: addReply_def QueryRow_eq)

lemma Article_store_fault:
  "faults d = True # fs \<Longrightarrow> Article_store x d = Inl (Fatal, d\<lparr>faults := fs\<rparr>)"
  by (simp add: Article_store_def QueryRow_eq)

lemma first_run_exists:
  "\<exists>pre run rest. text = pre @ run @ rest \<and> list_all (\<lambda>c. \<not> is_digit c) pre
     \<and> list_all is_digit run \<and> (rest = [] \<or> \<not> is_digit (hd rest))
     \<and> (run = [] \<longrightarrow> rest = [])"
proof -
  let ?pre = "takeWhile (\<lambda>c. \<not> is_digit c) text"
  let ?rem = "dropWhile (\<lambda>c. \<not> is_digit c) text"
  let ?run = "takeWhile is_digit ?rem"
  let ?rest = "dropWhile is_digit ?rem"
  have 1: "text = ?pre @ ?run @ ?rest" by simp
  have 2: "list_all (\<lambda>c. \<not> is_digit c) ?pre"
    by (auto simp: list_all_iff dest: set_takeWhileD)
  have 3: "list_all is_digit ?run"
    by (auto simp: list_all_iff dest: set_takeWhileD)
  have 4: "?rest = [] \<or> \<not> is_digit (hd ?rest)"
    using hd_dropWhile[of is_digit ?rem] by blast
  have 5: "?run = [] \<longrightarrow> ?rest = []"
  proof
    assume e: "?run = []"
    show "?rest = []"
    proof (cases ?rem)
      case Nil
      show ?thesis unfolding Nil by simp
    next
      case (Cons c cs)
      have "?rem \<noteq> []" using Cons by simp
      then have "is_digit (hd ?rem)" using hd_dropWhile[of "\<lambda>c. \<not> is_digit c" "text"] by blast
      then have "is_digit c" unfolding Cons by simp
      then have "takeWhile is_digit (c # cs) \<noteq> []" by simp
      then show ?thesis using e unfolding Cons by blast
    qed
  qed
  show ?thesis using 1 2 3 4 5 by blast
qed

lemma Split_no_sep: "sep \<notin> set s \<Longrightarrow> Split sep s = [s]"
  by (induction s) auto

lemma stack_pop_offsets_0_2_1_2_answering:
  assumes "fresh_ids d" "no_faults d" "\<forall>r\<in>set rows. head_ok r"
    and "map row_offset rows = [0, 2, 1, 2]"
  shows "\<exists>cp' d'. CommentPage_parse new_CommentPage a (Some rows) d = Inr (cp', d')
     \<and> map ID (Comments cp') =
         [comments_seq d + 1, comments_seq d + 2, comments_seq d + 3, comments_seq d + 4]
     \<and> ancestors_of d' (comments_seq d + 1) = [(comments_seq d + 1, 0)]
     \<and> ancestors_of d' (comments_seq d + 2) = [(comments_seq d + 2, 0), (comments_seq d + 1, 1)]
     \<and> ancestors_of d' (comments_seq d + 3) = [(comments_seq d + 3, 0), (comments_seq d + 1, 1)]
     \<and> ancestors_of d' (comments_seq d + 4) =
         [(comments_seq d + 4, 0), (comments_seq d + 3, 1), (comments_seq d + 1, 2)]"
proof -
  obtain s' where s': "scan_rows a rows (new_CommentPage, d) = Inr s'"
      "summary s' = foldl astep (summary (new_CommentPage, d)) (map row_offset rows)"
    using scan_rows_run[OF scan_inv_start[OF assms(1,2)] assms(3), of a] by blast
  obtain cp' d' where p: "s' = (cp', d')" by (cases s')
  have "summary (cp', d') = foldl astep ([], ancestors_of d, comments_seq d, []) [0, 2, 1, 2]"
    using s'(2) p assms(4) by (simp add: summary_start)
  then have "map ID (Comments cp') =
         [comments_seq d + 1, comments_seq d + 2, comments_seq d + 3, comments_seq d + 4]
     \<and> ancestors_of d' (comments_seq d + 1) = [(comments_seq d + 1, 0)]
     \<and> ancestors_of d' (comments_seq d + 2) = [(comments_seq d + 2, 0), (comments_seq d + 1, 1)]
     \<and> ancestors_of d' (comments_seq d + 3) = [(comments_seq d + 3, 0), (comments_seq d + 1, 1)]
     \<and> ancestors_of d' (comments_seq d + 4) =
         [(comments_seq d + 4, 0), (comments_seq d + 3, 1), (comments_seq d + 1, 2)]"
    by (simp add: summary_def astep_def Let_def deeper_def)
  then show ?thesis using s'(1) p by (simp add: CommentPage_parse_def)
qed

lemma closure_completeness_answering:
  assumes "fresh_ids d" "no_faults d" "\<forall>r\<in>set rows. head_ok r"
  shows "\<exists>cp' d'. CommentPage_parse new_CommentPage a (Some rows) d = Inr (cp', d')
     \<and> (\<forall>e\<in>set (threads d'). comments_seq d < t_descendant e \<and> 0 < t_depth e \<longrightarrow>
           (\<exists>p. map_of (reply_targets a rows (new_CommentPage, d)) (t_descendant e) = Some p
              \<and> edge_count d' (t_ancestor e) p (t_depth e - 1) = 1
              \<and> ancestors_of d' (t_descendant e) =
                  (t_descendant e, 0) # map deeper (ancestors_of d' p)))"
proof -
  let ?n0 = "comments_seq d"
  let ?ps = "reply_targets a rows (new_CommentPage, d)"
  obtain cp' d' where r: "CommentPage_parse new_CommentPage a (Some rows) d = Inr (cp', d')"
      "fresh_ids d'" "linked ?n0 ?ps d'"
    using scan_linked_start[OF assms, of a] by blast
  have "\<exists>p. map_of ?ps (t_descendant e) = Some p
              \<and> edge_count d' (t_ancestor e) p (t_depth e - 1) = 1
              \<and> ancestors_of d' (t_descendant e) =
                  (t_descendant e, 0) # map deeper (ancestors_of d' p)"
    if e: "e \<in> set (threads d')" "?n0 < t_descendant e" "0 < t_depth e" for e
  proof -
    let ?x = "t_descendant e"
    have xs: "?x \<le> comments_seq d'" using r(2) e(1) by (simp add: fresh_ids_def)
    have mem: "(t_ancestor e, t_depth e) \<in> set (ancestors_of d' ?x)"
      using e(1) by (rule in_ancestors_of)
    have c: "case map_of ?ps ?x of
            None \<Rightarrow> ancestors_of d' ?x = [(?x, 0)]
          | Some p \<Rightarrow> ?n0 < p \<and> p < ?x
              \<and> ancestors_of d' ?x = (?x, 0) # map deeper (ancestors_of d' p)"
      using r(3) e(2) xs by (simp add: linked_def)
    show ?thesis
    proof (cases "map_of ?ps ?x")
      case None
      then show ?thesis using c mem e(3) by simp
    next
      case (Some p)
      then have p: "?n0 < p" "p < ?x"
          "ancestors_of d' ?x = (?x, 0) # map deeper (ancestors_of d' p)"
        using c by simp_all
      have "(t_ancestor e, t_depth e) \<in> set (map deeper (ancestors_of d' p))"
        using mem p(3) e(3) by auto
      then have m: "(t_ancestor e, t_depth e - 1) \<in> set (ancestors_of d' p)"
        by (auto simp: deeper_def)
      have "distinct (ancestors_of d' p)"
        using linked_wf[OF r(3), of p] p(1,2) xs by simp
      then have "edge_count d' (t_ancestor e) p (t_depth e - 1) = 1"
        using m by (simp add: edge_count_ancestors distinct_count_one)
      then show ?thesis using Some p(3) by simp
    qed
  qed
  then show ?thesis using r(1) by blast
qed

lemma depth_monotonicity_answering:
  assumes "fresh_ids d" "no_faults d" "\<forall>r\<in>set rows. head_ok r"
  shows "\<exists>cp' d'. CommentPage_parse new_CommentPage a (Some rows) d = Inr (cp', d')
     \<and> (rows \<noteq> [] \<longrightarrow> ancestors_of d' (comments_seq d + 1) = [(comments_seq d + 1, 0)])
     \<and> (map row_offset rows = [0, 1, 2] \<longrightarrow>
           ancestors_of d' (comments_seq d + 1) = [(comments_seq d + 1, 0)]
         \<and> ancestors_of d' (comments_seq d + 2) = [(comments_seq d + 2, 0), (comments_seq d + 1, 1)]
         \<and> ancestors_of d' (comments_seq d + 3) =
             [(comments_seq d + 3, 0), (comments_seq d + 2, 1), (comments_seq d + 1, 2)])
     \<and> (map row_offset rows = [0, 0, 0] \<longrightarrow>
           ancestors_of d' (comments_seq d + 1) = [(comments_seq d + 1, 0)]
         \<and> ancestors_of d' (comments_seq d + 2) = [(comments_seq d + 2, 0)]
         \<and> ancestors_of d' (comments_seq d + 3) = [(comments_seq d + 3, 0)])"
proof -
  let ?n = "comments_seq d"
  let ?ps = "reply_targets a rows (new_CommentPage, d)"
  obtain s' where s': "scan_rows a rows (new_CommentPage, d) = Inr s'"
      "summary s' = foldl astep (summary (new_CommentPage, d)) (map row_offset rows)"
    using scan_rows_run[OF scan_inv_start[OF assms(1,2)] assms(3), of a] by blast
  obtain cp' d' where p: "s' = (cp', d')" by (cases s')
  have res: "CommentPage_parse new_CommentPage a (Some rows) d = Inr (cp', d')"
    using s'(1) p by (simp add: CommentPage_parse_def)
  have l: "linked ?n ?ps d'" and sq: "comments_seq d' = ?n + int (length rows)"
    using scan_linked_start[OF assms, of a] res by auto
  have first: "ancestors_of d' (?n + 1) = [(?n + 1, 0)]" if "rows \<noteq> []"
  proof -
    have "?n + 1 \<le> comments_seq d'" using sq that by (cases rows) auto
    then have "case map_of ?ps (?n + 1) of
            None \<Rightarrow> ancestors_of d' (?n + 1) = [(?n + 1, 0)]
          | Some p \<Rightarrow> ?n < p \<and> p < ?n + 1
              \<and> ancestors_of d' (?n + 1) = (?n + 1, 0) # map deeper (ancestors_of d' p)"
      using l by (simp add: linked_def)
    then show ?thesis by (cases "map_of ?ps (?n + 1)") auto
  qed
  have chain: "ancestors_of d' (?n + 1) = [(?n + 1, 0)]
         \<and> ancestors_of d' (?n + 2) = [(?n + 2, 0), (?n + 1, 1)]
         \<and> ancestors_of d' (?n + 3) = [(?n + 3, 0), (?n + 2, 1), (?n + 1, 2)]"
    if o: "map row_offset rows = [0, 1, 2]"
  proof -
    have "summary (cp', d') = foldl astep ([], ancestors_of d, ?n, []) [0, 1, 2]"
      using s'(2) p o by (simp add: summary_start)
    then show ?thesis by (simp add: summary_def astep_def Let_def deeper_def)
  qed
  have roots: "ancestors_of d' (?n + 1) = [(?n + 1, 0)]
         \<and> ancestors_of d' (?n + 2) = [(?n + 2, 0)]
         \<and> ancestors_of d' (?n + 3) = [(?n + 3, 0)]"
    if o: "map row_offset rows = [0, 0, 0]"
  proof -
    have "summary (cp', d') = foldl astep ([], ancestors_of d, ?n, []) [0, 0, 0]"
      using s'(2) p o by (simp add: summary_start)
    then show ?thesis by (simp add: summary_def astep_def Let_def deeper_def)
  qed
  show ?thesis using res first chain roots by blast
qed

lemma answering_fields [simp]:
  "articles (answering d) = articles d" "articles_seq (answering d) = articles_seq d"
  "comments (answering d) = comments d" "comments_seq (answering d) = comments_seq d"
  "threads (answering d) = threads d" "threads_seq (answering d) = threads_seq d"
  "faults (answering d) = []"
  by (simp_all add: answering_def)

lemma answering_props [simp]:
  "fresh_ids (answering d) = fresh_ids d" "no_faults (answering d)"
  "ancestors_of (answering d) = ancestors_of d"
  "edge_count (answering d) = edge_count d"
  by (simp_all add: fresh_ids_def no_faults_def ancestors_of_def edge_count_def fun_eq_iff)

lemma Comment_store_answering:
  "Comment_store c d = Inr (c', d') \<Longrightarrow>
   Comment_store c (answering d) = Inr (c', answering d')"
  by (auto simp: Comment_store_def QueryRow_eq Let_def answering_def
      split: bool.splits if_splits)

lemma addReply_answering:
  "addReply p c d = Inr (v, d') \<Longrightarrow> addReply p c (answering d) = Inr (v, answering d')"
  by (auto simp: addReply_def QueryRow_eq Let_def answering_def
      split: bool.splits if_splits)

lemma parseCommentHead_head_ok:
  "parseCommentHead r c0 = Inr x \<Longrightarrow> head_ok r"
  by (auto simp: parseCommentHead_def head_ok_def Let_def split: if_splits)

lemma scan_row_answering:
  assumes "scan_row a r (cp, d) = Inr (cp', d')"
  shows "scan_row a r (cp, answering d) = Inr (cp', answering d') \<and> head_ok r"
proof -
  let ?c0 = "parseIndent r (new_Comment (art_ID a))"
  obtain c1 e where c1: "parseCommentHead r ?c0 = Inr (c1, e)"
    using assms by (auto simp: scan_row_def Let_def split: sum.splits)
  obtain c d1 where st: "Comment_store (parseCommentBody r c1) d = Inr (c, d1)"
    using assms c1 by (auto simp: scan_row_def Let_def split: sum.splits)
  have st': "Comment_store (parseCommentBody r c1) (answering d) = Inr (c, answering d1)"
    using st by (rule Comment_store_answering)
  have ar: "addReply p c d1 = Inr (v, d2) \<Longrightarrow>
      addReply p c (answering d1) = Inr (v, answering d2)" for p v d2
    by (rule addReply_answering)
  have "scan_row a r (cp, answering d) = Inr (cp', answering d')"
    using assms c1 st st' ar
    by (auto simp: scan_row_def Let_def split: sum.splits if_splits)
  then show ?thesis using parseCommentHead_head_ok[OF c1] by simp
qed

lemma scan_rows_answering:
  "scan_rows a rows (cp, d) = Inr (cp', d') \<Longrightarrow>
   scan_rows a rows (cp, answering d) = Inr (cp', answering d')
   \<and> (\<forall>r\<in>set rows. head_ok r)
   \<and> reply_targets a rows (cp, answering d) = reply_targets a rows (cp, d)"
proof (induction rows arbitrary: cp d)
  case Nil
  then show ?case by simp
next
  case (Cons r rs)
  obtain cp1 d1 where 1: "scan_row a r (cp, d) = Inr (cp1, d1)"
      and 2: "scan_rows a rs (cp1, d1) = Inr (cp', d')"
    using Cons.prems by (auto split: sum.splits)
  have 3: "scan_row a r (cp, answering d) = Inr (cp1, answering d1)" "head_ok r"
    using scan_row_answering[OF 1] by simp_all
  show ?case using Cons.IH[OF 2] 1 3 by simp
qed

lemma parse_answering:
  assumes "CommentPage_parse cp a (Some rows) d = Inr (cp', d')"
  shows "CommentPage_parse cp a (Some rows) (answering d) = Inr (cp', answering d')"
    and "\<forall>r\<in>set rows. head_ok r"
    and "reply_targets a rows (cp, answering d) = reply_targets a rows (cp, d)"
  using scan_rows_answering[of a rows cp d cp' d'] assms
  by (simp_all add: CommentPage_parse_def)

lemma scan_returns:
  assumes "fresh_ids d" "no_faults d" "\<forall>r\<in>set rows. head_ok r"
  shows "\<exists>cp' d'. CommentPage_parse new_CommentPage a (Some rows) d = Inr (cp', d')"
  using scan_linked_start[OF assms, of a] by blast

lemma linked_reply:
  assumes l: "linked n0 ps d" and x: "n0 < x" "x \<le> comments_seq d"
  shows "case map_of ps x of
           None \<Rightarrow> ancestors_of d x = [(x, 0)]
         | Some p \<Rightarrow> n0 < p \<and> p < x
             \<and> ancestors_of d x = (x, 0) # map deeper (ancestors_of d p)
             \<and> edge_count d p x 1 = 1"
proof -
  have c: "case map_of ps x of
            None \<Rightarrow> ancestors_of d x = [(x, 0)]
          | Some p \<Rightarrow> n0 < p \<and> p < x
              \<and> ancestors_of d x = (x, 0) # map deeper (ancestors_of d p)"
    using l x by (simp add: linked_def)
  show ?thesis
  proof (cases "map_of ps x")
  case None
  then show ?thesis using c by simp
next
  case (Some p)
  have p: "n0 < p" "p < x" "ancestors_of d x = (x, 0) # map deeper (ancestors_of d p)"
    using c Some by simp_all
  have ps: "p \<le> comments_seq d" using p(2) x(2) by simp
  have "case map_of ps p of
            None \<Rightarrow> ancestors_of d p = [(p, 0)]
          | Some q \<Rightarrow> n0 < q \<and> q < p
              \<and> ancestors_of d p = (p, 0) # map deeper (ancestors_of d q)"
    using l p(1) ps by (simp add: linked_def)
  then have "(p, 0) \<in> set (ancestors_of d p)"
    by (cases "map_of ps p") simp_all
  then have "deeper (p, 0) \<in> set (map deeper (ancestors_of d p))" by auto
  then have m: "(p, 1) \<in> set (ancestors_of d x)" using p(3) by (simp add: deeper_def)
  have "distinct (ancestors_of d x)" using linked_wf[OF l x] by simp
  then have "edge_count d p x 1 = 1"
    using m by (simp add: edge_count_ancestors distinct_count_one)
  then show ?thesis using Some p by simp
qed
qed

lemma linked_answering: "linked n0 ps (answering d) = linked n0 ps d"
  by (simp add: linked_def cong: option.case_cong)

lemma scan_returned_facts:
  assumes f: "fresh_ids d"
    and r: "CommentPage_parse new_CommentPage a (Some rows) d = Inr (cp', d')"
  shows "fresh_ids d' \<and> (\<exists>cs. comments d' = comments d @ cs \<and> length cs = length rows
     \<and> (\<forall>c\<in>set cs. c_id c \<le> comments_seq d' \<and> edge_count d' (c_id c) (c_id c) 0 = 1))"
proof -
  let ?ps = "reply_targets a rows (new_CommentPage, answering d)"
  have fa: "fresh_ids (answering d)" using f by simp
  have n: "no_faults (answering d)" by simp
  have h: "\<forall>r\<in>set rows. head_ok r" using parse_answering(2)[OF r] .
  have ra: "CommentPage_parse new_CommentPage a (Some rows) (answering d)
      = Inr (cp', answering d')"
    using parse_answering(1)[OF r] .
  obtain cs where s: "fresh_ids (answering d')" "linked (comments_seq d) ?ps (answering d')"
      "comments (answering d') = comments (answering d) @ cs" "length cs = length rows"
      "\<forall>c\<in>set cs. comments_seq (answering d) < c_id c \<and> c_id c \<le> comments_seq (answering d')"
    using scan_linked_start[OF fa n h, of a] ra by auto
  have l: "linked (comments_seq d) ?ps d'" using s(2) by (simp add: linked_answering)
  have "c_id c \<le> comments_seq d' \<and> edge_count d' (c_id c) (c_id c) 0 = 1"
    if c: "c \<in> set cs" for c
  proof -
    let ?x = "c_id c"
    have x: "comments_seq d < ?x" "?x \<le> comments_seq d'" using s(5) c by auto
    have dist: "distinct (ancestors_of d' ?x)" using linked_wf[OF l x] by simp
    have "case map_of ?ps ?x of
            None \<Rightarrow> ancestors_of d' ?x = [(?x, 0)]
          | Some p \<Rightarrow> comments_seq d < p \<and> p < ?x
              \<and> ancestors_of d' ?x = (?x, 0) # map deeper (ancestors_of d' p)"
      using l x by (simp add: linked_def)
    then have "(?x, 0) \<in> set (ancestors_of d' ?x)"
      by (cases "map_of ?ps ?x") simp_all
    then show ?thesis using dist x(2) by (simp add: edge_count_ancestors distinct_count_one)
  qed
  then show ?thesis using s(1,3,4) by auto
qed

lemma scan_rows_Inl_decomp:
  "scan_rows a rows s = Inl e \<Longrightarrow>
   \<exists>rs r rs' s1. rows = rs @ r # rs' \<and> scan_rows a rs s = Inr s1 \<and> scan_row a r s1 = Inl e"
proof (induction rows arbitrary: s)
  case Nil
  then show ?case by simp
next
  case (Cons r rows)
  show ?case
  proof (cases "scan_row a r s")
    case (Inl e')
    then have "e' = e" using Cons.prems by simp
    then have "r # rows = [] @ r # rows \<and> scan_rows a [] s = Inr s \<and> scan_row a r s = Inl e"
      using Inl by simp
    then show ?thesis by blast
  next
    case (Inr s2)
    then have "scan_rows a rows s2 = Inl e" using Cons.prems by simp
    then obtain rs q rs' s1 where d: "rows = rs @ q # rs'" "scan_rows a rs s2 = Inr s1"
        "scan_row a q s1 = Inl e"
      using Cons.IH by blast
    have "r # rows = (r # rs) @ q # rs' \<and> scan_rows a (r # rs) s = Inr s1
        \<and> scan_row a q s1 = Inl e"
      using d Inr by simp
    then show ?thesis by blast
  qed
qed

lemma Comment_store_Inl:
  "Comment_store c d = Inl (x, d') \<Longrightarrow>
   x = Fatal \<and> threads d' = threads d
   \<and> (comments d' = comments d
        \<or> (\<exists>row. comments d' = comments d @ [row] \<and> c_id row = comments_seq d + 1))"
  by (auto simp: Comment_store_def QueryRow_eq Let_def split: bool.splits if_splits)

lemma Comment_store_Inr:
  "Comment_store c d = Inr (c', d') \<Longrightarrow>
   (\<exists>row e. comments d' = comments d @ [row] \<and> c_id row = comments_seq d + 1
      \<and> threads d' = threads d @ [e] \<and> t_ancestor e = comments_seq d + 1
      \<and> t_descendant e = comments_seq d + 1 \<and> t_depth e = 0)"
  by (auto simp: Comment_store_def QueryRow_eq Let_def split: bool.splits if_splits)

lemma addReply_Inl:
  "addReply p c d = Inl (x, d') \<Longrightarrow> threads d' = threads d \<and> comments d' = comments d"
  by (auto simp: addReply_def QueryRow_eq Let_def split: bool.splits if_splits)

lemma scan_row_Inl:
  assumes "scan_row a r (cp, d) = Inl (x, d')"
  shows "(comments d' = comments d \<and> threads d' = threads d)
     \<or> (\<exists>row. comments d' = comments d @ [row] \<and> c_id row = comments_seq d + 1
           \<and> threads d' = threads d \<and> x = Fatal)
     \<or> (\<exists>row e. comments d' = comments d @ [row] \<and> c_id row = comments_seq d + 1
           \<and> threads d' = threads d @ [e] \<and> t_ancestor e = comments_seq d + 1
           \<and> t_descendant e = comments_seq d + 1 \<and> t_depth e = 0)"
proof -
  let ?c0 = "parseIndent r (new_Comment (art_ID a))"
  show ?thesis
  proof (cases "parseCommentHead r ?c0")
    case (Inl y)
    then show ?thesis using assms by (simp add: scan_row_def)
  next
    case (Inr ce)
    obtain c1 e where ce: "ce = (c1, e)" by (cases ce)
    let ?c2 = "parseCommentBody r c1"
    show ?thesis
    proof (cases "Comment_store ?c2 d")
      case (Inl yd)
      then have "Comment_store ?c2 d = Inl (x, d')"
        using assms Inr ce by (simp add: scan_row_def Let_def)
      then show ?thesis using Comment_store_Inl[of ?c2 d x d'] by blast
    next
      case st: (Inr cd)
      obtain c d1 where cd: "cd = (c, d1)" by (cases cd)
      have s1: "\<exists>row e. comments d1 = comments d @ [row] \<and> c_id row = comments_seq d + 1
          \<and> threads d1 = threads d @ [e] \<and> t_ancestor e = comments_seq d + 1
          \<and> t_descendant e = comments_seq d + 1 \<and> t_depth e = 0"
        using Comment_store_Inr[of ?c2 d c d1] st cd by simp
      have ar: "addReply q c d1 = Inl (x, d') \<Longrightarrow>
          threads d' = threads d1 \<and> comments d' = comments d1" for q
        by (rule addReply_Inl)
      have "threads d' = threads d1 \<and> comments d' = comments d1"
        using assms Inr ce st cd ar
        by (auto simp: scan_row_def Let_def split: sum.splits if_splits)
      then show ?thesis using s1 by auto
    qed
  qed
qed

lemma edge_count_append:
  "threads d' = threads d @ es \<Longrightarrow>
   edge_count d' a x k = edge_count d a x k
     + length (filter (\<lambda>e. t_ancestor e = a \<and> t_descendant e = x \<and> t_depth e = k) es)"
  by (simp add: edge_count_def)

lemma edge_count_fresh: "fresh_ids d \<Longrightarrow> comments_seq d < x \<Longrightarrow> edge_count d a x k = 0"
  by (auto simp: edge_count_def fresh_ids_def filter_empty_conv)

lemma every_outcome_self_edges:
  assumes f: "fresh_ids d"
  shows "\<exists>cs. comments (final_db (CommentPage_parse new_CommentPage a (Some rows) d))
           = comments d @ cs
     \<and> (\<forall>c\<in>set (butlast cs).
           edge_count (final_db (CommentPage_parse new_CommentPage a (Some rows) d))
             (c_id c) (c_id c) 0 = 1)
     \<and> (cs \<noteq> [] \<longrightarrow>
           edge_count (final_db (CommentPage_parse new_CommentPage a (Some rows) d))
             (c_id (last cs)) (c_id (last cs)) 0 = 1
         \<or> edge_count (final_db (CommentPage_parse new_CommentPage a (Some rows) d))
             (c_id (last cs)) (c_id (last cs)) 0 = 0
           \<and> (\<exists>d2. CommentPage_parse new_CommentPage a (Some rows) d = Inl (Fatal, d2)))"
proof (cases "CommentPage_parse new_CommentPage a (Some rows) d")
  case (Inr sd)
  obtain cp' d' where sd: "sd = (cp', d')" by (cases sd)
  have r: "CommentPage_parse new_CommentPage a (Some rows) d = Inr (cp', d')"
    using Inr sd by simp
  obtain cs where cs: "comments d' = comments d @ cs"
      "\<forall>c\<in>set cs. edge_count d' (c_id c) (c_id c) 0 = 1"
    using scan_returned_facts[OF f r] by blast
  have fd: "final_db (CommentPage_parse new_CommentPage a (Some rows) d) = d'"
    using r by (simp add: final_db_def)
  have "\<forall>c\<in>set (butlast cs). edge_count d' (c_id c) (c_id c) 0 = 1"
    using cs(2) by (auto dest: in_set_butlastD)
  moreover have "cs \<noteq> [] \<longrightarrow> edge_count d' (c_id (last cs)) (c_id (last cs)) 0 = 1"
    using cs(2) by auto
  ultimately show ?thesis unfolding fd using cs(1) by blast
next
  case (Inl xd)
  obtain x d' where xd: "xd = (x, d')" by (cases xd)
  have fd: "final_db (CommentPage_parse new_CommentPage a (Some rows) d) = d'"
    using Inl xd by (simp add: final_db_def)
  have "scan_rows a rows (new_CommentPage, d) = Inl (x, d')"
    using Inl xd by (simp add: CommentPage_parse_def)
  then obtain rs r rs' s1 where dec: "rows = rs @ r # rs'"
      "scan_rows a rs (new_CommentPage, d) = Inr s1" "scan_row a r s1 = Inl (x, d')"
    using scan_rows_Inl_decomp by blast
  obtain cp1 d1 where s1: "s1 = (cp1, d1)" by (cases s1)
  have r1: "CommentPage_parse new_CommentPage a (Some rs) d = Inr (cp1, d1)"
    using dec(2) s1 by (simp add: CommentPage_parse_def)
  obtain cs1 where c1: "fresh_ids d1" "comments d1 = comments d @ cs1"
      "\<forall>c\<in>set cs1. c_id c \<le> comments_seq d1 \<and> edge_count d1 (c_id c) (c_id c) 0 = 1"
    using scan_returned_facts[OF f r1] by blast
  let ?n = "comments_seq d1 + 1"
  have new0: "edge_count d1 ?n ?n 0 = 0" using edge_count_fresh[OF c1(1), of ?n] by simp
  consider (none) "comments d' = comments d1" "threads d' = threads d1"
    | (bare) row where "comments d' = comments d1 @ [row]" "c_id row = ?n"
        "threads d' = threads d1" "x = Fatal"
    | (edge) row e where "comments d' = comments d1 @ [row]" "c_id row = ?n"
        "threads d' = threads d1 @ [e]" "t_ancestor e = ?n" "t_descendant e = ?n" "t_depth e = 0"
    using scan_row_Inl[of a r cp1 d1 x d'] dec(3) s1 by auto
  then show ?thesis
  proof cases
    case none
    have same: "edge_count d' b y k = edge_count d1 b y k" for b y k
      using none(2) by (simp add: edge_count_def)
    have "comments d' = comments d @ cs1" using none(1) c1(2) by simp
    moreover have "\<forall>c\<in>set (butlast cs1). edge_count d' (c_id c) (c_id c) 0 = 1"
      using c1(3) same by (auto dest: in_set_butlastD)
    moreover have "cs1 \<noteq> [] \<longrightarrow> edge_count d' (c_id (last cs1)) (c_id (last cs1)) 0 = 1"
      using c1(3) same by auto
    ultimately show ?thesis unfolding fd by blast
  next
    case bare
    have same: "edge_count d' b y k = edge_count d1 b y k" for b y k
      using bare(3) by (simp add: edge_count_def)
    have "comments d' = comments d @ (cs1 @ [row])" using bare(1) c1(2) by simp
    moreover have "\<forall>c\<in>set (butlast (cs1 @ [row])). edge_count d' (c_id c) (c_id c) 0 = 1"
      using c1(3) same by simp
    moreover have "edge_count d' (c_id (last (cs1 @ [row]))) (c_id (last (cs1 @ [row]))) 0 = 0"
      using new0 same bare(2) by simp
    moreover have "\<exists>d2. CommentPage_parse new_CommentPage a (Some rows) d = Inl (Fatal, d2)"
      using Inl xd bare(4) by simp
    ultimately show ?thesis unfolding fd by blast
  next
    case edge
    have old: "edge_count d' y y 0 = edge_count d1 y y 0" if "y \<le> comments_seq d1" for y
      using edge_count_append[OF edge(3), of y y 0] edge(5) that by simp
    have new: "edge_count d' ?n ?n 0 = 1"
      using edge_count_append[OF edge(3), of ?n ?n 0] new0 edge(4,5,6) by simp
    have "comments d' = comments d @ (cs1 @ [row])" using edge(1) c1(2) by simp
    moreover have "\<forall>c\<in>set (butlast (cs1 @ [row])). edge_count d' (c_id c) (c_id c) 0 = 1"
      using c1(3) old by simp
    moreover have "edge_count d' (c_id (last (cs1 @ [row]))) (c_id (last (cs1 @ [row]))) 0 = 1"
      using new edge(2) by simp
    ultimately show ?thesis unfolding fd by blast
  qed
qed

lemma segmentation_exists: "\<exists>segs rest. rows = page_rows segs rest \<and> segmented segs rest"
proof (induction rows)
  case Nil
  have "[] = page_rows [] [] \<and> segmented [] []" by (simp add: page_rows_def segmented_def)
  then show ?case by blast
next
  case (Cons r rows)
  then obtain segs rest where s: "rows = page_rows segs rest" "segmented segs rest" by blast
  show ?case
  proof (cases "is_spacer r")
    case True
    have "r # rows = page_rows (([], r) # segs) rest \<and> segmented (([], r) # segs) rest"
      using s True by (simp add: page_rows_def segmented_def)
    then show ?thesis by blast
  next
    case False
    show ?thesis
    proof (cases segs)
      case Nil
      have "r # rows = page_rows [] (r # rest) \<and> segmented [] (r # rest)"
        using s False Nil by (simp add: page_rows_def segmented_def)
      then show ?thesis by blast
    next
      case (Cons g gs)
      obtain seg sp where g: "g = (seg, sp)" by (cases g)
      have "r # rows = page_rows ((r # seg, sp) # gs) rest
          \<and> segmented ((r # seg, sp) # gs) rest"
        using s False Cons g by (simp add: page_rows_def segmented_def)
      then show ?thesis by blast
    qed
  qed
qed

lemma front_row_plain:
  assumes "\<not> is_spacer s"
  shows "front_row s (st, d) =
     Inr (st\<lparr>heap := (heap st)[cur st := row_effect s (heap st ! cur st)],
             page := (page st)\<lparr>Articles := Articles (page st)
                        @ (if appends s then [cur st] else [])\<rparr>\<rparr>, d)"
proof -
  have ns: "Attr (row_class s) \<noteq> ''spacer''" using assms by (simp add: is_spacer_def)
  show ?thesis
  proof (cases "Attr (row_class s) = ''athing''")
    case True
    then show ?thesis by (simp add: front_row_def Let_def row_effect_def appends_def)
  next
    case na: False
    show ?thesis
    proof (cases "Attr (row_class s) = []")
      case False
      then show ?thesis using ns na
        by (simp add: front_row_def Let_def row_effect_def appends_def)
    next
      case True
      obtain a' b where ab: "parseSubtextRow (subtext s) (heap st ! cur st) = (a', b)"
        by (cases "parseSubtextRow (subtext s) (heap st ! cur st)")
      have b: "b = (subtext s \<noteq> None)"
        using parseSubtextRow_snd[of "subtext s" "heap st ! cur st"] ab by simp
      show ?thesis using True ab b
        by (cases b) (simp_all add: front_row_def Let_def row_effect_def appends_def)
    qed
  qed
qed

lemma segment_run:
  assumes "\<forall>s\<in>set seg. \<not> is_spacer s" "cur st < length (heap st)"
  shows "\<exists>st'. front_rows seg (st, d) = Inr (st', d)
     \<and> heap st' = (heap st)[cur st := foldl (\<lambda>a s. row_effect s a) (heap st ! cur st) seg]
     \<and> cur st' = cur st
     \<and> Articles (page st') = Articles (page st) @ replicate (length (filter appends seg)) (cur st)
     \<and> SnapshotID (page st') = SnapshotID (page st)"
  using assms
proof (induction seg arbitrary: st)
  case Nil
  then show ?case by simp
next
  case (Cons s seg)
  let ?st1 = "st\<lparr>heap := (heap st)[cur st := row_effect s (heap st ! cur st)],
             page := (page st)\<lparr>Articles := Articles (page st)
                        @ (if appends s then [cur st] else [])\<rparr>\<rparr>"
  have 1: "front_row s (st, d) = Inr (?st1, d)"
    using front_row_plain[of s st d] Cons.prems(1) by simp
  have c1: "cur ?st1 < length (heap ?st1)" using Cons.prems(2) by simp
  obtain st' where 2: "front_rows seg (?st1, d) = Inr (st', d)"
      "heap st' = (heap ?st1)[cur ?st1 := foldl (\<lambda>a s. row_effect s a) (heap ?st1 ! cur ?st1) seg]"
      "cur st' = cur ?st1"
      "Articles (page st') = Articles (page ?st1)
          @ replicate (length (filter appends seg)) (cur ?st1)"
      "SnapshotID (page st') = SnapshotID (page ?st1)"
    using Cons.IH[of ?st1] Cons.prems(1) c1 by auto
  have h: "heap st' = (heap st)[cur st := foldl (\<lambda>a s. row_effect s a) (heap st ! cur st) (s # seg)]"
    using 2(2) Cons.prems(2) by simp
  have a: "Articles (page st') = Articles (page st)
      @ replicate (length (filter appends (s # seg))) (cur st)"
    using 2(4) by (simp add: replicate_app_Cons_same)
  show ?case using 1 2(1,3,5) h a by simp
qed

lemma segment_step:
  assumes seg: "\<forall>s\<in>set seg. \<not> is_spacer s" and sp: "is_spacer sp"
    and nf: "no_faults d" and inv: "front_inv sid st"
  shows "\<exists>st' d'. front_rows (seg @ [sp]) (st, d) = Inr (st', d')
     \<and> no_faults d' \<and> front_inv sid st'
     \<and> articles d' = articles d @ [articles_row (built sid seg) (articles_seq d + 1)]
     \<and> articles_seq d' = articles_seq d + 1
     \<and> heap st' = (heap st)[cur st := (built sid seg)\<lparr>art_ID := articles_seq d + 1\<rparr>]
                    @ [new_Article sid]
     \<and> Articles (page st') = Articles (page st) @ replicate (length (filter appends seg)) (cur st)
     \<and> cur st' = length (heap st)"
proof -
  have c: "cur st < length (heap st)" and fresh: "heap st ! cur st = new_Article sid"
    and sid: "SnapshotID (page st) = sid" and old: "\<forall>p\<in>set (Articles (page st)). p < cur st"
    using inv by (simp_all add: front_inv_def)
  obtain st1 where 1: "front_rows seg (st, d) = Inr (st1, d)"
      "heap st1 = (heap st)[cur st := built sid seg]" "cur st1 = cur st"
      "Articles (page st1) = Articles (page st) @ replicate (length (filter appends seg)) (cur st)"
      "SnapshotID (page st1) = sid"
    using segment_run[OF seg c, of d] fresh sid by (auto simp: built_def)
  let ?a = "built sid seg"
  obtain d' where d': "Article_store ?a d = Inr (?a\<lparr>art_ID := articles_seq d + 1\<rparr>, d')"
      "no_faults d'" "articles d' = articles d @ [articles_row ?a (articles_seq d + 1)]"
      "articles_seq d' = articles_seq d + 1"
    using Article_store_ok[OF nf, of ?a] by blast
  let ?a3 = "?a\<lparr>art_ID := articles_seq d + 1\<rparr>"
  let ?st3 = "next_Article (st1\<lparr>heap := (heap st1)[cur st1 := ?a3]\<rparr>)"
  have at: "heap st1 ! cur st1 = ?a" using 1(2,3) c by simp
  have s3: "front_row sp (st1, d) = Inr (?st3, d')"
    using sp at d'(1) by (simp add: front_row_def Let_def is_spacer_def)
  have run: "front_rows (seg @ [sp]) (st, d) = Inr (?st3, d')"
    using 1(1) s3 by (simp add: front_rows_append)
  have hp: "heap ?st3 = (heap st)[cur st := ?a3] @ [new_Article sid]"
    using 1(2,3,5) by (simp add: next_Article_def)
  have ar: "Articles (page ?st3) = Articles (page st)
      @ replicate (length (filter appends seg)) (cur st)"
    using 1(4) by (simp add: next_Article_def)
  have cu: "cur ?st3 = length (heap st)" using 1(2) by (simp add: next_Article_def)
  have inv': "front_inv sid ?st3"
    unfolding front_inv_def using hp ar cu c old 1(5)
    by (auto simp: nth_append next_Article_def)
  show ?thesis
    apply (rule exI[of _ ?st3], rule exI[of _ d'])
    using run d'(2-4) inv' hp ar cu by simp
qed

lemma segments_run:
  assumes "\<forall>(seg, sp)\<in>set segs. is_spacer sp \<and> (\<forall>s\<in>set seg. \<not> is_spacer s)"
    "no_faults d" "front_inv sid st"
  shows "\<exists>st' d'. front_rows (concat (map (\<lambda>(seg, sp). seg @ [sp]) segs)) (st, d) = Inr (st', d')
     \<and> no_faults d' \<and> front_inv sid st'
     \<and> articles d' = articles d @ seg_persisted sid (articles_seq d) segs
     \<and> map ((!) (heap st')) (Articles (page st')) =
         map ((!) (heap st)) (Articles (page st)) @ seg_yielded sid (articles_seq d) segs
     \<and> (\<forall>p<cur st. heap st' ! p = heap st ! p)
     \<and> cur st \<le> cur st'"
  using assms
proof (induction segs arbitrary: st d)
  case Nil
  then show ?case by simp
next
  case (Cons g segs)
  obtain seg sp where g: "g = (seg, sp)" by (cases g)
  have sg: "\<forall>s\<in>set seg. \<not> is_spacer s" and sp: "is_spacer sp"
    and rest: "\<forall>(seg, sp)\<in>set segs. is_spacer sp \<and> (\<forall>s\<in>set seg. \<not> is_spacer s)"
    using Cons.prems(1) g by auto
  let ?a = "(built sid seg)\<lparr>art_ID := articles_seq d + 1\<rparr>"
  let ?k = "length (filter appends seg)"
  obtain st1 d1 where 1: "front_rows (seg @ [sp]) (st, d) = Inr (st1, d1)"
      "no_faults d1" "front_inv sid st1"
      "articles d1 = articles d @ [articles_row (built sid seg) (articles_seq d + 1)]"
      "articles_seq d1 = articles_seq d + 1"
      "heap st1 = (heap st)[cur st := ?a] @ [new_Article sid]"
      "Articles (page st1) = Articles (page st) @ replicate ?k (cur st)"
      "cur st1 = length (heap st)"
    using segment_step[OF sg sp Cons.prems(2,3)] by blast
  obtain st' d' where 2:
      "front_rows (concat (map (\<lambda>(seg, sp). seg @ [sp]) segs)) (st1, d1) = Inr (st', d')"
      "no_faults d'" "front_inv sid st'"
      "articles d' = articles d1 @ seg_persisted sid (articles_seq d1) segs"
      "map ((!) (heap st')) (Articles (page st')) =
         map ((!) (heap st1)) (Articles (page st1)) @ seg_yielded sid (articles_seq d1) segs"
      "\<forall>p<cur st1. heap st' ! p = heap st1 ! p" "cur st1 \<le> cur st'"
    using Cons.IH[OF rest 1(2,3)] by blast
  have c: "cur st < length (heap st)" and old: "\<forall>p\<in>set (Articles (page st)). p < cur st"
    using Cons.prems(3) by (simp_all add: front_inv_def)
  have e: "concat (map (\<lambda>(seg, sp). seg @ [sp]) (g # segs)) =
      (seg @ [sp]) @ concat (map (\<lambda>(seg, sp). seg @ [sp]) segs)"
    using g by simp
  have run: "front_rows (concat (map (\<lambda>(seg, sp). seg @ [sp]) (g # segs))) (st, d) = Inr (st', d')"
    unfolding e front_rows_append[of "seg @ [sp]"] 1(1) by (simp add: 2(1))
  have ar: "articles d' = articles d @ seg_persisted sid (articles_seq d) (g # segs)"
    using 1(4,5) 2(4) g by simp
  have low: "heap st1 ! p = heap st ! p" if "p < cur st" for p
    using that c 1(6) by (simp add: nth_append)
  have at: "heap st1 ! cur st = ?a" using c 1(6) by (simp add: nth_append)
  have m1: "map ((!) (heap st1)) (Articles (page st)) = map ((!) (heap st)) (Articles (page st))"
    using old low by simp
  have m2: "map ((!) (heap st1)) (Articles (page st1)) =
      map ((!) (heap st)) (Articles (page st)) @ replicate ?k ?a"
    using 1(7) m1 at by (simp add: map_replicate)
  have ys: "map ((!) (heap st')) (Articles (page st')) =
         map ((!) (heap st)) (Articles (page st)) @ seg_yielded sid (articles_seq d) (g # segs)"
    using 2(5) m2 1(5) g by simp
  have keep: "\<forall>p<cur st. heap st' ! p = heap st ! p"
    using 2(6) 1(8) c low by simp
  have le: "cur st \<le> cur st'" using 2(7) 1(8) c by simp
  show ?case using run ar ys keep le 2(2,3) by blast
qed

lemma articles_general:
  assumes "segmented segs rest" "no_faults d"
  shows "\<exists>st' d'. FrontPage_parse (new_FrontPage sid) h (Some (page_rows segs rest)) d
            = Inr (st', d')
     \<and> articles d' = articles d @ seg_persisted sid (articles_seq d) segs
     \<and> length (seg_persisted sid (articles_seq d) segs) = length segs
     \<and> snapshot_articles st' =
         seg_yielded sid (articles_seq d) segs
           @ replicate (length (filter appends rest)) (built sid rest)"
proof -
  let ?st = "next_Article \<lparr>heap = h, cur = 0, page = new_FrontPage sid\<rparr>"
  have inv: "front_inv sid ?st"
    by (simp add: front_inv_def next_Article_def new_FrontPage_def)
  have emp: "Articles (page ?st) = []" by (simp add: next_Article_def new_FrontPage_def)
  have sg: "\<forall>(seg, sp)\<in>set segs. is_spacer sp \<and> (\<forall>s\<in>set seg. \<not> is_spacer s)"
    and rs: "\<forall>s\<in>set rest. \<not> is_spacer s"
    using assms(1) by (simp_all add: segmented_def)
  obtain st1 d1 where 1:
      "front_rows (concat (map (\<lambda>(seg, sp). seg @ [sp]) segs)) (?st, d) = Inr (st1, d1)"
      "front_inv sid st1"
      "articles d1 = articles d @ seg_persisted sid (articles_seq d) segs"
      "map ((!) (heap st1)) (Articles (page st1)) =
         map ((!) (heap ?st)) (Articles (page ?st)) @ seg_yielded sid (articles_seq d) segs"
    using segments_run[OF sg assms(2) inv] by blast
  have c: "cur st1 < length (heap st1)" and fresh: "heap st1 ! cur st1 = new_Article sid"
    and old: "\<forall>p\<in>set (Articles (page st1)). p < cur st1"
    using 1(2) by (simp_all add: front_inv_def)
  obtain st' where 2: "front_rows rest (st1, d1) = Inr (st', d1)"
      "heap st' = (heap st1)[cur st1 := built sid rest]" "cur st' = cur st1"
      "Articles (page st') = Articles (page st1)
          @ replicate (length (filter appends rest)) (cur st1)"
    using segment_run[OF rs c, of d1] fresh by (auto simp: built_def)
  have run: "FrontPage_parse (new_FrontPage sid) h (Some (page_rows segs rest)) d = Inr (st', d1)"
    unfolding FrontPage_parse_def page_rows_def option.case front_rows_append 1(1)
    by (simp add: 2(1))
  have ne: "\<forall>p\<in>set (Articles (page st1)). p \<noteq> cur st1" using old by auto
  have m1: "map ((!) (heap st')) (Articles (page st1)) = map ((!) (heap st1)) (Articles (page st1))"
    using ne 2(2) by (auto simp: nth_list_update)
  have at: "heap st' ! cur st1 = built sid rest" using 2(2) c by simp
  have "snapshot_articles st' = seg_yielded sid (articles_seq d) segs
           @ replicate (length (filter appends rest)) (built sid rest)"
    using 2(4) m1 at 1(4) emp by (simp add: snapshot_articles_def map_replicate)
  moreover have "length (seg_persisted sid n segs) = length segs" for n
    by (induction segs arbitrary: n) auto
  ultimately show ?thesis using run 1(3) by blast
qed

section \<open>The claims\<close>

text \<open>
  Each theorem is preceded by the claim it settles. The scan is
  \<^verbatim>\<open>CommentPage.parse\<close> on a fresh \<^verbatim>\<open>CommentPage\<close>, as \<^verbatim>\<open>Poll\<close> calls it; the ids
  the store assigns are the values of its sequence, so the comments of a scan
  over a store \<open>d\<close> are numbered \<open>comments_seq d + 1\<close>, \<open>comments_seq d + 2\<close>, ...
\<close>

text \<open>
  C1. Stack-pop correctness for the offsets 0, 2, 1, 2. It is stated for every
  store whose edges end in comments the sequence has numbered: the scan returns
  when the store answers every statement and no head panics, and whenever it
  returns, the four comments are numbered consecutively; the second is a child
  of the first; the third is a child of the first too, the second having been
  popped; the fourth is a child of the third, and its ancestors are exactly
  itself, the third and the first, at the depths 0, 1 and 2.
\<close>

theorem stack_pop_offsets_0_2_1_2:
  assumes "fresh_ids d" "map row_offset rows = [0, 2, 1, 2]"
  shows "(no_faults d \<and> (\<forall>r\<in>set rows. head_ok r) \<longrightarrow>
            (\<exists>cp' d'. CommentPage_parse new_CommentPage a (Some rows) d = Inr (cp', d')))
     \<and> (CommentPage_parse new_CommentPage a (Some rows) d = Inr (cp', d') \<longrightarrow>
           map ID (Comments cp') =
             [comments_seq d + 1, comments_seq d + 2, comments_seq d + 3, comments_seq d + 4]
         \<and> ancestors_of d' (comments_seq d + 1) = [(comments_seq d + 1, 0)]
         \<and> ancestors_of d' (comments_seq d + 2) = [(comments_seq d + 2, 0), (comments_seq d + 1, 1)]
         \<and> ancestors_of d' (comments_seq d + 3) = [(comments_seq d + 3, 0), (comments_seq d + 1, 1)]
         \<and> ancestors_of d' (comments_seq d + 4) =
             [(comments_seq d + 4, 0), (comments_seq d + 3, 1), (comments_seq d + 1, 2)])"
proof -
  have A: "\<exists>cp' d'. CommentPage_parse new_CommentPage a (Some rows) d = Inr (cp', d')"
    if "no_faults d \<and> (\<forall>r\<in>set rows. head_ok r)"
    using scan_returns[OF assms(1)] that by blast
  have B: "map ID (Comments cp') =
             [comments_seq d + 1, comments_seq d + 2, comments_seq d + 3, comments_seq d + 4]
         \<and> ancestors_of d' (comments_seq d + 1) = [(comments_seq d + 1, 0)]
         \<and> ancestors_of d' (comments_seq d + 2) = [(comments_seq d + 2, 0), (comments_seq d + 1, 1)]
         \<and> ancestors_of d' (comments_seq d + 3) = [(comments_seq d + 3, 0), (comments_seq d + 1, 1)]
         \<and> ancestors_of d' (comments_seq d + 4) =
             [(comments_seq d + 4, 0), (comments_seq d + 3, 1), (comments_seq d + 1, 2)]"
    if r: "CommentPage_parse new_CommentPage a (Some rows) d = Inr (cp', d')"
  proof -
    have f: "fresh_ids (answering d)" using assms(1) by simp
    have n: "no_faults (answering d)" by simp
    show ?thesis
      using stack_pop_offsets_0_2_1_2_answering[OF f n parse_answering(2)[OF r] assms(2), of a]
        parse_answering(1)[OF r]
      by auto
  qed
  show ?thesis using A B by blast
qed

theorem stack_pop_offsets_0_2_1_2_witness:
  "fresh_ids empty_db \<and> no_faults empty_db
   \<and> list_all head_ok (sample_rows [''0'', ''2'', ''1'', ''2''])
   \<and> map row_offset (sample_rows [''0'', ''2'', ''1'', ''2'']) = [0, 2, 1, 2]
   \<and> (\<exists>cp' d'. CommentPage_parse new_CommentPage sample_article
          (Some (sample_rows [''0'', ''2'', ''1'', ''2''])) empty_db = Inr (cp', d')
        \<and> map ID (Comments cp') = [1, 2, 3, 4]
        \<and> ancestors_of d' 1 = [(1, 0)]
        \<and> ancestors_of d' 2 = [(2, 0), (1, 1)]
        \<and> ancestors_of d' 3 = [(3, 0), (1, 1)]
        \<and> ancestors_of d' 4 = [(4, 0), (3, 1), (1, 2)])"
proof -
  let ?rows = "sample_rows [''0'', ''2'', ''1'', ''2'']"
  have f: "fresh_ids empty_db" by (simp add: fresh_ids_def empty_db_def)
  have n: "no_faults empty_db" by (simp add: no_faults_def empty_db_def)
  have s: "comments_seq empty_db = 0" by (simp add: empty_db_def)
  have h: "\<forall>r\<in>set ?rows. head_ok r"
    by (simp add: sample_rows_def head_ok_def sample_row_def Attr_def)
  have o: "map row_offset ?rows = [0, 2, 1, 2]" by code_simp
  obtain cp' d' where r: "CommentPage_parse new_CommentPage sample_article (Some ?rows) empty_db
      = Inr (cp', d')"
    using stack_pop_offsets_0_2_1_2 [OF f o, where a = sample_article] n h by blast
  have "map ID (Comments cp') = [1, 2, 3, 4]
        \<and> ancestors_of d' 1 = [(1, 0)]
        \<and> ancestors_of d' 2 = [(2, 0), (1, 1)]
        \<and> ancestors_of d' 3 = [(3, 0), (1, 1)]
        \<and> ancestors_of d' 4 = [(4, 0), (3, 1), (1, 2)]"
    using stack_pop_offsets_0_2_1_2 [OF f o, where a = sample_article and cp' = cp' and d' = d'] r
    by (simp add: s)
  then show ?thesis using f n h o r by (simp add: list_all_iff)
qed

text \<open>
  C2. Closure completeness. It is stated for every store whose edges end in
  comments the sequence has numbered: the scan returns when the store answers
  every statement and no head panics, and whenever it returns, it has numbered
  one comment per row, and for each of them: a comment that
  \<^verbatim>\<open>addReply\<close> was not called for has itself at depth 0 as its only
  ancestor; a reply, whose target \<open>p\<close> is the entry of the stack that
  \<^verbatim>\<open>addReply\<close> was called on, has as ancestors itself and the ancestors of
  \<open>p\<close>, each one level deeper, and exactly one edge from \<open>p\<close> at depth 1.
  So no edge of a reply is missing. Conversely every edge \<open>{a, x, k}\<close> with
  \<open>k > 0\<close> whose descendant \<open>x\<close> the scan numbered has such a target
  \<open>p\<close>, and the store holds exactly one edge \<open>{a, p, k - 1}\<close>.
\<close>

theorem closure_completeness:
  assumes "fresh_ids d"
  shows "(no_faults d \<and> (\<forall>r\<in>set rows. head_ok r) \<longrightarrow>
            (\<exists>cp' d'. CommentPage_parse new_CommentPage a (Some rows) d = Inr (cp', d')))
     \<and> (CommentPage_parse new_CommentPage a (Some rows) d = Inr (cp', d') \<longrightarrow>
          comments_seq d' = comments_seq d + int (length rows)
        \<and> (\<forall>x. comments_seq d < x \<and> x \<le> comments_seq d' \<longrightarrow>
             (case map_of (reply_targets a rows (new_CommentPage, d)) x of
                None \<Rightarrow> ancestors_of d' x = [(x, 0)]
              | Some p \<Rightarrow> comments_seq d < p \<and> p < x
                  \<and> ancestors_of d' x = (x, 0) # map deeper (ancestors_of d' p)
                  \<and> edge_count d' p x 1 = 1))
        \<and> (\<forall>e\<in>set (threads d'). comments_seq d < t_descendant e \<and> 0 < t_depth e \<longrightarrow>
             (\<exists>p. map_of (reply_targets a rows (new_CommentPage, d)) (t_descendant e) = Some p
                \<and> edge_count d' (t_ancestor e) p (t_depth e - 1) = 1
                \<and> ancestors_of d' (t_descendant e) =
                    (t_descendant e, 0) # map deeper (ancestors_of d' p))))"
proof -
  let ?ps = "reply_targets a rows (new_CommentPage, d)"
  have A: "\<exists>cp' d'. CommentPage_parse new_CommentPage a (Some rows) d = Inr (cp', d')"
    if "no_faults d \<and> (\<forall>r\<in>set rows. head_ok r)"
    using scan_returns[OF assms(1)] that by blast
  have B: "comments_seq d' = comments_seq d + int (length rows)
        \<and> (\<forall>x. comments_seq d < x \<and> x \<le> comments_seq d' \<longrightarrow>
             (case map_of ?ps x of
                None \<Rightarrow> ancestors_of d' x = [(x, 0)]
              | Some p \<Rightarrow> comments_seq d < p \<and> p < x
                  \<and> ancestors_of d' x = (x, 0) # map deeper (ancestors_of d' p)
                  \<and> edge_count d' p x 1 = 1))
        \<and> (\<forall>e\<in>set (threads d'). comments_seq d < t_descendant e \<and> 0 < t_depth e \<longrightarrow>
             (\<exists>p. map_of ?ps (t_descendant e) = Some p
                \<and> edge_count d' (t_ancestor e) p (t_depth e - 1) = 1
                \<and> ancestors_of d' (t_descendant e) =
                    (t_descendant e, 0) # map deeper (ancestors_of d' p)))"
    if r: "CommentPage_parse new_CommentPage a (Some rows) d = Inr (cp', d')"
  proof -
    have f: "fresh_ids (answering d)" using assms(1) by simp
    have n: "no_faults (answering d)" by simp
    have h: "\<forall>r\<in>set rows. head_ok r" using parse_answering(2)[OF r] .
    have ra: "CommentPage_parse new_CommentPage a (Some rows) (answering d)
        = Inr (cp', answering d')"
      using parse_answering(1)[OF r] .
    have tg: "reply_targets a rows (new_CommentPage, answering d) = ?ps"
      using parse_answering(3)[OF r] .
    have "linked (comments_seq d) ?ps (answering d')
        \<and> comments_seq (answering d') = comments_seq d + int (length rows)"
      using scan_linked_start[OF f n h, of a] ra tg by auto
    then have l: "linked (comments_seq d) ?ps d'"
      and sq: "comments_seq d' = comments_seq d + int (length rows)"
      by (simp_all add: linked_answering)
    have per: "case map_of ?ps x of
                None \<Rightarrow> ancestors_of d' x = [(x, 0)]
              | Some p \<Rightarrow> comments_seq d < p \<and> p < x
                  \<and> ancestors_of d' x = (x, 0) # map deeper (ancestors_of d' p)
                  \<and> edge_count d' p x 1 = 1"
      if "comments_seq d < x \<and> x \<le> comments_seq d'" for x
      using linked_reply[OF l, of x] that by simp
    have old: "\<forall>e\<in>set (threads d'). comments_seq d < t_descendant e \<and> 0 < t_depth e \<longrightarrow>
             (\<exists>p. map_of ?ps (t_descendant e) = Some p
                \<and> edge_count d' (t_ancestor e) p (t_depth e - 1) = 1
                \<and> ancestors_of d' (t_descendant e) =
                    (t_descendant e, 0) # map deeper (ancestors_of d' p))"
      using closure_completeness_answering[OF f n h, of a] ra tg by auto
    show ?thesis using sq per old by blast
  qed
  show ?thesis using A B by blast
qed

theorem closure_completeness_witness:
  "fresh_ids empty_db \<and> no_faults empty_db
   \<and> list_all head_ok (sample_rows [''0'', ''2'', ''1'', ''2''])
   \<and> reply_targets sample_article (sample_rows [''0'', ''2'', ''1'', ''2''])
        (new_CommentPage, empty_db) = [(2, 1), (3, 1), (4, 3)]
   \<and> (\<exists>cp' d'. CommentPage_parse new_CommentPage sample_article
          (Some (sample_rows [''0'', ''2'', ''1'', ''2''])) empty_db = Inr (cp', d')
        \<and> comments_seq d' = 4
        \<and> ancestors_of d' 1 = [(1, 0)]
        \<and> ancestors_of d' 2 = (2, 0) # map deeper (ancestors_of d' 1)
        \<and> ancestors_of d' 3 = (3, 0) # map deeper (ancestors_of d' 1)
        \<and> ancestors_of d' 4 = (4, 0) # map deeper (ancestors_of d' 3)
        \<and> edge_count d' 1 2 1 = 1 \<and> edge_count d' 1 3 1 = 1 \<and> edge_count d' 3 4 1 = 1
        \<and> (\<forall>e\<in>set (threads d'). comments_seq empty_db < t_descendant e \<and> 0 < t_depth e \<longrightarrow>
              (\<exists>p. map_of [(2, 1), (3, 1), (4, 3)] (t_descendant e) = Some p
                 \<and> edge_count d' (t_ancestor e) p (t_depth e - 1) = 1
                 \<and> ancestors_of d' (t_descendant e) =
                     (t_descendant e, 0) # map deeper (ancestors_of d' p))))"
proof -
  let ?rows = "sample_rows [''0'', ''2'', ''1'', ''2'']"
  let ?ps = "[(2, 1), (3, 1), (4, 3)] :: (int \<times> int) list"
  have f: "fresh_ids empty_db" by (simp add: fresh_ids_def empty_db_def)
  have n: "no_faults empty_db" by (simp add: no_faults_def empty_db_def)
  have s: "comments_seq empty_db = 0" by (simp add: empty_db_def)
  have len: "int (length ?rows) = 4" by (simp add: sample_rows_def)
  have h: "\<forall>r\<in>set ?rows. head_ok r"
    by (simp add: sample_rows_def head_ok_def sample_row_def Attr_def)
  have t: "reply_targets sample_article ?rows (new_CommentPage, empty_db) = ?ps"
    by code_simp
  obtain cp' d' where r: "CommentPage_parse new_CommentPage sample_article (Some ?rows) empty_db
      = Inr (cp', d')"
    using closure_completeness [OF f, where rows = ?rows and a = sample_article] n h by blast
  have B: "comments_seq d' = 4
        \<and> (\<forall>x. 0 < x \<and> x \<le> comments_seq d' \<longrightarrow>
             (case map_of ?ps x of
                None \<Rightarrow> ancestors_of d' x = [(x, 0)]
              | Some p \<Rightarrow> 0 < p \<and> p < x
                  \<and> ancestors_of d' x = (x, 0) # map deeper (ancestors_of d' p)
                  \<and> edge_count d' p x 1 = 1))
        \<and> (\<forall>e\<in>set (threads d'). 0 < t_descendant e \<and> 0 < t_depth e \<longrightarrow>
              (\<exists>p. map_of ?ps (t_descendant e) = Some p
                 \<and> edge_count d' (t_ancestor e) p (t_depth e - 1) = 1
                 \<and> ancestors_of d' (t_descendant e) =
                     (t_descendant e, 0) # map deeper (ancestors_of d' p)))"
    using closure_completeness [OF f, where rows = ?rows and a = sample_article
        and cp' = cp' and d' = d'] r
    unfolding t s len by simp
  then have sq: "comments_seq d' = 4" by blast
  have per: "case map_of ?ps x of
                None \<Rightarrow> ancestors_of d' x = [(x, 0)]
              | Some p \<Rightarrow> 0 < p \<and> p < x
                  \<and> ancestors_of d' x = (x, 0) # map deeper (ancestors_of d' p)
                  \<and> edge_count d' p x 1 = 1" if "0 < x" "x \<le> 4" for x
    using B that by simp
  have 1: "ancestors_of d' 1 = [(1, 0)]" using per[of 1] by simp
  have 2: "ancestors_of d' 2 = (2, 0) # map deeper (ancestors_of d' 1) \<and> edge_count d' 1 2 1 = 1"
    using per[of 2] by simp
  have 3: "ancestors_of d' 3 = (3, 0) # map deeper (ancestors_of d' 1) \<and> edge_count d' 1 3 1 = 1"
    using per[of 3] by simp
  have 4: "ancestors_of d' 4 = (4, 0) # map deeper (ancestors_of d' 3) \<and> edge_count d' 3 4 1 = 1"
    using per[of 4] by simp
  have old: "\<forall>e\<in>set (threads d'). comments_seq empty_db < t_descendant e \<and> 0 < t_depth e \<longrightarrow>
              (\<exists>p. map_of ?ps (t_descendant e) = Some p
                 \<and> edge_count d' (t_ancestor e) p (t_depth e - 1) = 1
                 \<and> ancestors_of d' (t_descendant e) =
                     (t_descendant e, 0) # map deeper (ancestors_of d' p))"
    using B unfolding s by blast
  show ?thesis
    apply (intro conjI f n)
      apply (simp add: list_all_iff h)
     apply (rule t)
    apply (rule exI[of _ cp'], rule exI[of _ d'])
    using r sq 1 2 3 4 old by blast
qed

text \<open>
  C3 as the code has it. Whatever the store does, the edges present before
  \<^verbatim>\<open>Comment.store\<close>, \<^verbatim>\<open>addReply\<close>, \<^verbatim>\<open>Article.store\<close> or a whole
  \<^verbatim>\<open>CommentPage.parse\<close> are an unchanged prefix of the edges present after
  it, also when the call ends the process. Whenever a scan returns, it has
  added one comment per row and each of them has exactly one edge with itself
  as ancestor and descendant at depth 0; the scan returns when the store
  answers every statement and no head panics. And however a scan ends, every
  comment it has added but the last has exactly one such edge; the last has
  one, or has none and the scan ended in \<^verbatim>\<open>log.Fatal\<close>.
\<close>

theorem self_edge_totality:
  "prefix (threads d) (threads (final_db (Comment_store c d)))
   \<and> prefix (threads d) (threads (final_db (addReply p c d)))
   \<and> prefix (threads d) (threads (final_db (Article_store x d)))
   \<and> prefix (threads d) (threads (final_db (CommentPage_parse cp a doc d)))
   \<and> (fresh_ids d \<and> no_faults d \<and> (\<forall>r\<in>set rows. head_ok r) \<longrightarrow>
        (\<exists>cp' d'. CommentPage_parse new_CommentPage a (Some rows) d = Inr (cp', d')))
   \<and> (fresh_ids d \<and> CommentPage_parse new_CommentPage a (Some rows) d = Inr (cp', d') \<longrightarrow>
        (\<exists>cs. comments d' = comments d @ cs \<and> length cs = length rows
           \<and> (\<forall>c\<in>set cs. edge_count d' (c_id c) (c_id c) 0 = 1)))
   \<and> (fresh_ids d \<longrightarrow>
        (\<exists>cs. comments (final_db (CommentPage_parse new_CommentPage a (Some rows) d))
                 = comments d @ cs
           \<and> (\<forall>c\<in>set (butlast cs).
                 edge_count (final_db (CommentPage_parse new_CommentPage a (Some rows) d))
                   (c_id c) (c_id c) 0 = 1)
           \<and> (cs \<noteq> [] \<longrightarrow>
                 edge_count (final_db (CommentPage_parse new_CommentPage a (Some rows) d))
                   (c_id (last cs)) (c_id (last cs)) 0 = 1
               \<or> edge_count (final_db (CommentPage_parse new_CommentPage a (Some rows) d))
                   (c_id (last cs)) (c_id (last cs)) 0 = 0
                 \<and> (\<exists>d2. CommentPage_parse new_CommentPage a (Some rows) d
                           = Inl (Fatal, d2)))))"
proof -
  have A: "\<exists>cp' d'. CommentPage_parse new_CommentPage a (Some rows) d = Inr (cp', d')"
    if "fresh_ids d \<and> no_faults d \<and> (\<forall>r\<in>set rows. head_ok r)"
    using scan_returns[of d rows a] that by blast
  have B: "\<exists>cs. comments d' = comments d @ cs \<and> length cs = length rows
           \<and> (\<forall>c\<in>set cs. edge_count d' (c_id c) (c_id c) 0 = 1)"
    if "fresh_ids d \<and> CommentPage_parse new_CommentPage a (Some rows) d = Inr (cp', d')"
    using scan_returned_facts[of d a rows cp' d'] that by blast
  show ?thesis
    using A B every_outcome_self_edges[of d a rows]
      Comment_store_prefix addReply_prefix Article_store_prefix CommentPage_parse_prefix
    by blast
qed

theorem self_edge_totality_witness:
  "prefix (threads empty_db)
     (threads (final_db (Comment_store (new_Comment 7) (empty_db\<lparr>faults := [False, True]\<rparr>))))
   \<and> (\<exists>cp' d' cs. CommentPage_parse new_CommentPage sample_article
          (Some (sample_rows [''0'', ''2'', ''1'', ''2''])) empty_db = Inr (cp', d')
        \<and> comments d' = cs \<and> length cs = 4
        \<and> (\<forall>c\<in>set cs. edge_count d' (c_id c) (c_id c) 0 = 1))
   \<and> fresh_ids (empty_db\<lparr>faults := [False, True]\<rparr>)
   \<and> (\<exists>cs. comments (final_db (CommentPage_parse new_CommentPage sample_article
                 (Some (sample_rows [''0''])) (empty_db\<lparr>faults := [False, True]\<rparr>))) = cs
        \<and> length cs = 1
        \<and> (edge_count (final_db (CommentPage_parse new_CommentPage sample_article
                 (Some (sample_rows [''0''])) (empty_db\<lparr>faults := [False, True]\<rparr>)))
               (c_id (last cs)) (c_id (last cs)) 0 = 1
           \<or> edge_count (final_db (CommentPage_parse new_CommentPage sample_article
                 (Some (sample_rows [''0''])) (empty_db\<lparr>faults := [False, True]\<rparr>)))
               (c_id (last cs)) (c_id (last cs)) 0 = 0
             \<and> (\<exists>d2. CommentPage_parse new_CommentPage sample_article
                 (Some (sample_rows [''0''])) (empty_db\<lparr>faults := [False, True]\<rparr>)
                   = Inl (Fatal, d2))))"
proof -
  let ?rows = "sample_rows [''0'', ''2'', ''1'', ''2'']"
  let ?d2 = "empty_db\<lparr>faults := [False, True]\<rparr>"
  let ?R = "CommentPage_parse new_CommentPage sample_article (Some (sample_rows [''0''])) ?d2"
  have f: "fresh_ids empty_db" by (simp add: fresh_ids_def empty_db_def)
  have f2: "fresh_ids ?d2" by (simp add: fresh_ids_def empty_db_def)
  have n: "no_faults empty_db" by (simp add: no_faults_def empty_db_def)
  have h: "\<forall>r\<in>set ?rows. head_ok r"
    by (simp add: sample_rows_def head_ok_def sample_row_def Attr_def)
  have c: "comments empty_db = []" by (simp add: empty_db_def)
  have c2: "comments ?d2 = []" by (simp add: empty_db_def)
  have l: "length ?rows = 4" by (simp add: sample_rows_def)
  have l2: "length (comments (final_db ?R)) = 1" by code_simp
  have t: "threads ?d2 = threads empty_db" by simp
  have 1: "prefix (threads empty_db)
     (threads (final_db (Comment_store (new_Comment 7) ?d2)))"
    using self_edge_totality [where d = ?d2 and c = "new_Comment 7"]
    by (simp add: t)
  obtain cp' d' where r: "CommentPage_parse new_CommentPage sample_article (Some ?rows) empty_db
      = Inr (cp', d')"
    using self_edge_totality [where d = empty_db and rows = ?rows and a = sample_article]
      f n h by blast
  have "\<exists>cs. comments d' = comments empty_db @ cs \<and> length cs = length ?rows
           \<and> (\<forall>c\<in>set cs. edge_count d' (c_id c) (c_id c) 0 = 1)"
    using self_edge_totality [where d = empty_db and rows = ?rows and a = sample_article
        and cp' = cp' and d' = d'] f r by blast
  then have 2: "\<exists>cp' d' cs. CommentPage_parse new_CommentPage sample_article
          (Some ?rows) empty_db = Inr (cp', d')
        \<and> comments d' = cs \<and> length cs = 4
        \<and> (\<forall>c\<in>set cs. edge_count d' (c_id c) (c_id c) 0 = 1)"
    using r by (simp add: c l)
  have "\<exists>cs. comments (final_db ?R) = comments ?d2 @ cs
           \<and> (\<forall>c\<in>set (butlast cs). edge_count (final_db ?R) (c_id c) (c_id c) 0 = 1)
           \<and> (cs \<noteq> [] \<longrightarrow>
                 edge_count (final_db ?R) (c_id (last cs)) (c_id (last cs)) 0 = 1
               \<or> edge_count (final_db ?R) (c_id (last cs)) (c_id (last cs)) 0 = 0
                 \<and> (\<exists>d2. ?R = Inl (Fatal, d2)))"
    using self_edge_totality [where d = ?d2 and rows = "sample_rows [''0'']"
        and a = sample_article] f2 by blast
  then obtain cs where cs: "comments (final_db ?R) = comments ?d2 @ cs"
      "cs \<noteq> [] \<longrightarrow>
                 edge_count (final_db ?R) (c_id (last cs)) (c_id (last cs)) 0 = 1
               \<or> edge_count (final_db ?R) (c_id (last cs)) (c_id (last cs)) 0 = 0
                 \<and> (\<exists>d2. ?R = Inl (Fatal, d2))"
    by blast
  have e: "comments (final_db ?R) = cs" using cs(1) c2 by simp
  have lc: "length cs = 1" using l2 e by simp
  then have ne: "cs \<noteq> []" by auto
  have D: "edge_count (final_db ?R) (c_id (last cs)) (c_id (last cs)) 0 = 1
           \<or> edge_count (final_db ?R) (c_id (last cs)) (c_id (last cs)) 0 = 0
             \<and> (\<exists>d2. ?R = Inl (Fatal, d2))"
    using cs(2) ne by blast
  have 3: "\<exists>cs. comments (final_db ?R) = cs \<and> length cs = 1
        \<and> (edge_count (final_db ?R) (c_id (last cs)) (c_id (last cs)) 0 = 1
           \<or> edge_count (final_db ?R) (c_id (last cs)) (c_id (last cs)) 0 = 0
             \<and> (\<exists>d2. ?R = Inl (Fatal, d2)))"
    using e lc D by (intro exI[of _ cs] conjI)
  show ?thesis using 1 2 f2 3 by (intro conjI)
qed

text \<open>
  C3 as stated fails: a store that takes the comment and refuses its self-edge
  leaves the comment persisted, with no edge from itself to itself.
\<close>

theorem self_edge_missing_counterexample:
  "map c_id (comments (final_db (CommentPage_parse new_CommentPage sample_article
        (Some (sample_rows [''0''])) (empty_db\<lparr>faults := [False, True]\<rparr>)))) = [1]
   \<and> edge_count (final_db (CommentPage_parse new_CommentPage sample_article
        (Some (sample_rows [''0''])) (empty_db\<lparr>faults := [False, True]\<rparr>))) 1 1 0 = 0"
  by code_simp

text \<open>
  C4. Depth monotonicity. It is stated for every store whose edges end in
  comments the sequence has numbered: the scan returns when the store answers
  every statement and no head panics, and whenever it returns, the first comment
  of the article is a root whose only edge is its edge to itself; rows with the
  offsets 0, 1, 2 give one chain, the three comments at the depths 0, 1 and 2
  below the first; rows with the offsets 0, 0, 0 give three roots, each with its
  edge to itself only.
\<close>

theorem depth_monotonicity:
  assumes "fresh_ids d"
  shows "(no_faults d \<and> (\<forall>r\<in>set rows. head_ok r) \<longrightarrow>
            (\<exists>cp' d'. CommentPage_parse new_CommentPage a (Some rows) d = Inr (cp', d')))
     \<and> (CommentPage_parse new_CommentPage a (Some rows) d = Inr (cp', d') \<longrightarrow>
         (rows \<noteq> [] \<longrightarrow> ancestors_of d' (comments_seq d + 1) = [(comments_seq d + 1, 0)])
       \<and> (map row_offset rows = [0, 1, 2] \<longrightarrow>
             ancestors_of d' (comments_seq d + 1) = [(comments_seq d + 1, 0)]
           \<and> ancestors_of d' (comments_seq d + 2) =
               [(comments_seq d + 2, 0), (comments_seq d + 1, 1)]
           \<and> ancestors_of d' (comments_seq d + 3) =
               [(comments_seq d + 3, 0), (comments_seq d + 2, 1), (comments_seq d + 1, 2)])
       \<and> (map row_offset rows = [0, 0, 0] \<longrightarrow>
             ancestors_of d' (comments_seq d + 1) = [(comments_seq d + 1, 0)]
           \<and> ancestors_of d' (comments_seq d + 2) = [(comments_seq d + 2, 0)]
           \<and> ancestors_of d' (comments_seq d + 3) = [(comments_seq d + 3, 0)]))"
proof -
  have A: "\<exists>cp' d'. CommentPage_parse new_CommentPage a (Some rows) d = Inr (cp', d')"
    if "no_faults d \<and> (\<forall>r\<in>set rows. head_ok r)"
    using scan_returns[OF assms(1)] that by blast
  have B: "(rows \<noteq> [] \<longrightarrow> ancestors_of d' (comments_seq d + 1) = [(comments_seq d + 1, 0)])
       \<and> (map row_offset rows = [0, 1, 2] \<longrightarrow>
             ancestors_of d' (comments_seq d + 1) = [(comments_seq d + 1, 0)]
           \<and> ancestors_of d' (comments_seq d + 2) =
               [(comments_seq d + 2, 0), (comments_seq d + 1, 1)]
           \<and> ancestors_of d' (comments_seq d + 3) =
               [(comments_seq d + 3, 0), (comments_seq d + 2, 1), (comments_seq d + 1, 2)])
       \<and> (map row_offset rows = [0, 0, 0] \<longrightarrow>
             ancestors_of d' (comments_seq d + 1) = [(comments_seq d + 1, 0)]
           \<and> ancestors_of d' (comments_seq d + 2) = [(comments_seq d + 2, 0)]
           \<and> ancestors_of d' (comments_seq d + 3) = [(comments_seq d + 3, 0)])"
    if r: "CommentPage_parse new_CommentPage a (Some rows) d = Inr (cp', d')"
  proof -
    have f: "fresh_ids (answering d)" using assms(1) by simp
    have n: "no_faults (answering d)" by simp
    show ?thesis
      using depth_monotonicity_answering[OF f n parse_answering(2)[OF r], of a]
        parse_answering(1)[OF r]
      by auto
  qed
  show ?thesis using A B by blast
qed

theorem depth_monotonicity_witness:
  "fresh_ids empty_db \<and> no_faults empty_db
   \<and> map row_offset (sample_rows [''0'', ''1'', ''2'']) = [0, 1, 2]
   \<and> map row_offset (sample_rows [''0'', ''0'', ''0'']) = [0, 0, 0]
   \<and> (\<exists>cp' d'. CommentPage_parse new_CommentPage sample_article
          (Some (sample_rows [''0'', ''1'', ''2''])) empty_db = Inr (cp', d')
        \<and> ancestors_of d' 1 = [(1, 0)]
        \<and> ancestors_of d' 2 = [(2, 0), (1, 1)]
        \<and> ancestors_of d' 3 = [(3, 0), (2, 1), (1, 2)])
   \<and> (\<exists>cp' d'. CommentPage_parse new_CommentPage sample_article
          (Some (sample_rows [''0'', ''0'', ''0''])) empty_db = Inr (cp', d')
        \<and> ancestors_of d' 1 = [(1, 0)]
        \<and> ancestors_of d' 2 = [(2, 0)]
        \<and> ancestors_of d' 3 = [(3, 0)])"
proof -
  let ?r1 = "sample_rows [''0'', ''1'', ''2'']"
  let ?r2 = "sample_rows [''0'', ''0'', ''0'']"
  have f: "fresh_ids empty_db" by (simp add: fresh_ids_def empty_db_def)
  have n: "no_faults empty_db" by (simp add: no_faults_def empty_db_def)
  have s: "comments_seq empty_db = 0" by (simp add: empty_db_def)
  have h: "\<forall>r\<in>set (sample_rows ws). head_ok r" for ws
    by (simp add: sample_rows_def head_ok_def sample_row_def Attr_def)
  have o1: "map row_offset ?r1 = [0, 1, 2]" by code_simp
  have o2: "map row_offset ?r2 = [0, 0, 0]" by code_simp
  obtain c1 d1 where r1: "CommentPage_parse new_CommentPage sample_article (Some ?r1) empty_db
      = Inr (c1, d1)"
    using depth_monotonicity [OF f, where rows = ?r1 and a = sample_article] n h by blast
  obtain c2 d2 where r2: "CommentPage_parse new_CommentPage sample_article (Some ?r2) empty_db
      = Inr (c2, d2)"
    using depth_monotonicity [OF f, where rows = ?r2 and a = sample_article] n h by blast
  have 1: "ancestors_of d1 1 = [(1, 0)] \<and> ancestors_of d1 2 = [(2, 0), (1, 1)]
        \<and> ancestors_of d1 3 = [(3, 0), (2, 1), (1, 2)]"
    using depth_monotonicity [OF f, where rows = ?r1 and a = sample_article
        and cp' = c1 and d' = d1] r1 o1
    by (simp add: s)
  have 2: "ancestors_of d2 1 = [(1, 0)] \<and> ancestors_of d2 2 = [(2, 0)]
        \<and> ancestors_of d2 3 = [(3, 0)]"
    using depth_monotonicity [OF f, where rows = ?r2 and a = sample_article
        and cp' = c2 and d' = d2] r2 o2
    by (simp add: s)
  show ?thesis using f n o1 o2 r1 r2 1 2 by simp
qed

text \<open>
  C10. The invariant of the thread stack. The stack of a fresh
  \<^verbatim>\<open>CommentPage\<close> satisfies it, and from any stack that satisfies it, after
  every row the scan has processed: the depth counter is the length of the
  stack, the offsets on the stack increase strictly from bottom to top, and
  the comment of the row processed last is on top.
\<close>

theorem thread_stack_invariant:
  "stack_inv new_CommentPage \<and>
   (stack_inv cp \<and> scan_rows a rows (cp, d) = Inr (cp', d') \<longrightarrow>
      depth cp' = int (length (thread cp'))
      \<and> sorted_wrt (<) (map offset (thread cp'))
      \<and> (rows \<noteq> [] \<longrightarrow> thread cp' \<noteq> [] \<and> last (thread cp') = last (Comments cp')
            \<and> offset (last (thread cp')) = row_offset (last rows)))"
proof -
  have "stack_inv new_CommentPage" by (simp add: stack_inv_def new_CommentPage_def)
  moreover have "depth cp' = int (length (thread cp'))
      \<and> sorted_wrt (<) (map offset (thread cp'))
      \<and> (rows \<noteq> [] \<longrightarrow> thread cp' \<noteq> [] \<and> last (thread cp') = last (Comments cp')
            \<and> offset (last (thread cp')) = row_offset (last rows))"
    if "stack_inv cp" "scan_rows a rows (cp, d) = Inr (cp', d')"
  proof -
    have "stack_inv cp'" using scan_rows_stack[OF that] by blast
    then show ?thesis using scan_rows_stack[OF that] unfolding stack_inv_def by blast
  qed
  ultimately show ?thesis by blast
qed

theorem thread_stack_invariant_witness:
  "stack_inv new_CommentPage
   \<and> (\<exists>cp' d'. scan_rows sample_article (sample_rows [''0'', ''2'', ''1'', ''2''])
          (new_CommentPage, empty_db) = Inr (cp', d')
        \<and> depth cp' = int (length (thread cp'))
        \<and> sorted_wrt (<) (map offset (thread cp'))
        \<and> thread cp' \<noteq> [] \<and> last (thread cp') = last (Comments cp')
        \<and> offset (last (thread cp')) = 2)"
proof -
  have f: "fresh_ids empty_db" by (simp add: fresh_ids_def empty_db_def)
  have n: "no_faults empty_db" by (simp add: no_faults_def empty_db_def)
  have h: "\<forall>r\<in>set (sample_rows [''0'', ''2'', ''1'', ''2'']). head_ok r"
    by (simp add: sample_rows_def head_ok_def sample_row_def Attr_def)
  have o: "row_offset (last (sample_rows [''0'', ''2'', ''1'', ''2''])) = 2" by code_simp
  have ne: "sample_rows [''0'', ''2'', ''1'', ''2''] \<noteq> []" by (simp add: sample_rows_def)
  obtain s' where s': "scan_rows sample_article (sample_rows [''0'', ''2'', ''1'', ''2''])
      (new_CommentPage, empty_db) = Inr s'"
    using scan_rows_run [OF scan_inv_start [OF f n] h, of sample_article] by blast
  obtain cp' d' where p: "s' = (cp', d')" by (cases s')
  have r: "stack_inv new_CommentPage \<and> depth cp' = int (length (thread cp'))
      \<and> sorted_wrt (<) (map offset (thread cp'))
      \<and> thread cp' \<noteq> [] \<and> last (thread cp') = last (Comments cp')
      \<and> offset (last (thread cp')) =
            row_offset (last (sample_rows [''0'', ''2'', ''1'', ''2'']))"
    using thread_stack_invariant [of new_CommentPage sample_article
        "sample_rows [''0'', ''2'', ''1'', ''2'']" empty_db cp' d'] s' p ne
    by blast
  have "offset (last (thread cp')) =
      row_offset (last (sample_rows [''0'', ''2'', ''1'', ''2'']))"
    using r by blast
  then have "offset (last (thread cp')) = 2" unfolding o .
  then show ?thesis using r s' p by blast
qed

text \<open>
  C5. A comment row whose head holds three links. \<^verbatim>\<open>parseCommentHead\<close> returns
  its error for the row, and the scan goes on with the comment all the same:
  the comment is stored with an empty user name, enters the stack and gets
  edges, and the comment after it becomes its child. Evaluated on three rows
  with the offsets 0, 1, 2 of which the second is the malformed one.
\<close>

theorem malformed_head_is_stored_and_linked:
  "map length (map comhead_links malformed_rows) = [2, 3, 2]
   \<and> parseCommentHead (malformed_rows ! 1) (new_Comment 7) = Inr (new_Comment 7, Some WrongLinks)
   \<and> map c_username (comments (final_db (CommentPage_parse new_CommentPage sample_article
        (Some malformed_rows) empty_db))) = [''ann'', [], ''cyd'']
   \<and> ancestors_of (final_db (CommentPage_parse new_CommentPage sample_article
        (Some malformed_rows) empty_db)) 2 = [(2, 0), (1, 1)]
   \<and> ancestors_of (final_db (CommentPage_parse new_CommentPage sample_article
        (Some malformed_rows) empty_db)) 3 = [(3, 0), (2, 1), (1, 2)]"
  by code_simp

text \<open>
  C6 as the code has it. A statement the store refuses is fatal at once:
  \<^verbatim>\<open>Comment.store\<close>, \<^verbatim>\<open>addReply\<close> and \<^verbatim>\<open>Article.store\<close> end the process with the
  store as it stood; when the second statement of \<^verbatim>\<open>Comment.store\<close> is the one
  refused, the comment stays stored without its edge to itself. A row that
  ends the process ends the scan of its article with the same exit, whatever
  rows follow, and an article whose scan ends the process ends the loop over
  the snapshot's articles, whatever articles follow.
\<close>

theorem store_failure_ends_process:
  "(faults d = True # fs \<longrightarrow>
      Comment_store c d = Inl (Fatal, d\<lparr>faults := fs\<rparr>)
      \<and> addReply p c d = Inl (Fatal, d\<lparr>faults := fs\<rparr>)
      \<and> Article_store x d = Inl (Fatal, d\<lparr>faults := fs\<rparr>))
   \<and> (faults d = False # True # fs \<longrightarrow>
      Comment_store c d = Inl (Fatal, d\<lparr>faults := fs,
        comments := comments d @ [\<lparr>c_id = comments_seq d + 1, c_comment_id = CommentID c,
           c_username = Username c, c_color = Color c, c_content = Content c,
           c_article_id = ArticleID c\<rparr>],
        comments_seq := comments_seq d + 1\<rparr>))
   \<and> (scan_rows a rs (cp, d0) = Inr s1 \<and> scan_row a r s1 = Inl e \<longrightarrow>
      CommentPage_parse cp a (Some (rs @ r # rs')) d0 = Inl e)
   \<and> (Poll_articles fetch as d0 = Inr d1
        \<and> CommentPage_parse new_CommentPage b (fetch (CommentsLink b)) d1 = Inl e \<longrightarrow>
      Poll_articles fetch (as @ b # as') d0 = Inl e)"
  using Comment_store_fault[of d fs c] addReply_fault[of d fs p c] Article_store_fault[of d fs x]
    Comment_store_fault2[of d fs c]
  by (auto simp: CommentPage_parse_def scan_rows_append Poll_articles_append)

theorem store_failure_ends_process_witness:
  "Comment_store (new_Comment 7) (empty_db\<lparr>faults := [True]\<rparr>) = Inl (Fatal, empty_db)
   \<and> map c_id (comments (final_db (Comment_store (new_Comment 7)
        (empty_db\<lparr>faults := [False, True]\<rparr>)))) = [1]
   \<and> threads (final_db (Comment_store (new_Comment 7)
        (empty_db\<lparr>faults := [False, True]\<rparr>))) = []
   \<and> CommentPage_parse new_CommentPage sample_article
        (Some ([] @ sample_row ''0'' [''ann'', ''link''] ''item?id=100'' # sample_rows [''40'']))
        (empty_db\<lparr>faults := [True]\<rparr>) = Inl (Fatal, empty_db)
   \<and> Poll_articles sample_fetch ([] @ sample_article # [sample_article])
        (empty_db\<lparr>faults := [False, False, True]\<rparr>) =
      Inl (Fatal, final_db (CommentPage_parse new_CommentPage sample_article
             (Some (sample_rows [''0''])) empty_db))"
proof -
  let ?r = "sample_row ''0'' [''ann'', ''link''] ''item?id=100''"
  let ?d = "empty_db\<lparr>faults := [True]\<rparr>"
  let ?d2 = "empty_db\<lparr>faults := [False, True]\<rparr>"
  let ?d3 = "empty_db\<lparr>faults := [False, False, True]\<rparr>"
  have e: "empty_db\<lparr>faults := []\<rparr> = empty_db" by (simp add: empty_db_def)
  have 0: "Comment_store (new_Comment 7) ?d = Inl (Fatal, empty_db)"
    using store_failure_ends_process [where d = ?d and fs = "[]" and c = "new_Comment 7"]
    by (simp add: e)
  have 1: "map c_id (comments (final_db (Comment_store (new_Comment 7) ?d2))) = [1]
     \<and> threads (final_db (Comment_store (new_Comment 7) ?d2)) = []"
    using store_failure_ends_process [where d = ?d2 and fs = "[]" and c = "new_Comment 7"]
    by (simp add: final_db_def empty_db_def)
  have s: "scan_rows sample_article [] (new_CommentPage, ?d) = Inr (new_CommentPage, ?d)"
    by simp
  have r: "scan_row sample_article ?r (new_CommentPage, ?d) = Inl (Fatal, empty_db)"
    by code_simp
  have 2: "CommentPage_parse new_CommentPage sample_article
        (Some ([] @ ?r # sample_rows [''40''])) ?d = Inl (Fatal, empty_db)"
    using store_failure_ends_process [where a = sample_article and rs = "[]"
        and cp = new_CommentPage and ?d0.0 = ?d and ?s1.0 = "(new_CommentPage, ?d)" and r = ?r
        and e = "(Fatal, empty_db)" and rs' = "sample_rows [''40'']"] s r
    by blast
  have p0: "Poll_articles sample_fetch [] ?d3 = Inr ?d3" by simp
  have p1: "CommentPage_parse new_CommentPage sample_article
      (sample_fetch (CommentsLink sample_article)) ?d3 =
      Inl (Fatal, final_db (CommentPage_parse new_CommentPage sample_article
             (Some (sample_rows [''0''])) empty_db))"
    by code_simp
  have 3: "Poll_articles sample_fetch ([] @ sample_article # [sample_article]) ?d3 =
      Inl (Fatal, final_db (CommentPage_parse new_CommentPage sample_article
             (Some (sample_rows [''0''])) empty_db))"
    using store_failure_ends_process [where fetch = sample_fetch and as = "[]"
        and ?d0.0 = ?d3 and ?d1.0 = ?d3 and b = sample_article
        and as' = "[sample_article]"] p0 p1
    by blast
  show ?thesis using 0 1 2 3 by blast
qed

text \<open>
  C6 as stated fails: with a store that refuses the first statement, the loop
  over two articles ends the process before any comment is stored; and a
  refusal at the fourth statement (the second comment's edge to itself)
  leaves both comments stored with the first one's edge only.
\<close>

theorem store_failure_counterexample:
  "Poll_articles sample_fetch [sample_article, sample_article] (empty_db\<lparr>faults := [True]\<rparr>)
     = Inl (Fatal, empty_db)
   \<and> map c_id (comments (final_db (CommentPage_parse new_CommentPage sample_article
        (Some (sample_rows [''0'', ''40''])) (empty_db\<lparr>faults := [False, False, False, True]\<rparr>))))
     = [1, 2]
   \<and> threads (final_db (CommentPage_parse new_CommentPage sample_article
        (Some (sample_rows [''0'', ''40''])) (empty_db\<lparr>faults := [False, False, False, True]\<rparr>)))
     = [\<lparr>t_id = 1, t_ancestor = 1, t_descendant = 1, t_depth = 0\<rparr>]"
  by code_simp

text \<open>
  C7 as the code has it. Every row sequence is cut at its spacer rows, and for
  a store that answers \<^verbatim>\<open>FrontPage.parse\<close> returns; the relation gains one row
  for every spacer row, holding what the rows since the spacer before built,
  with or without a subtext, in the order of the page; the snapshot's article
  sequence holds the article in progress once for every row without a class
  that has subtext elements, in the order of the page, with the id of its row
  in the relation when a spacer row follows and with id 0, not persisted, when
  the rows end first. A row of another class than \<^verbatim>\<open>athing\<close>, or without a
  class and without subtext elements, changes nothing of the article and
  appends nothing.
\<close>

theorem articles_persisted_at_spacer:
  assumes "no_faults d"
  shows "(\<exists>segs rest. rows = page_rows segs rest \<and> segmented segs rest)
     \<and> (rows = page_rows segs rest \<and> segmented segs rest \<longrightarrow>
          (\<exists>st' d'. FrontPage_parse (new_FrontPage sid) h (Some rows) d = Inr (st', d')
             \<and> articles d' = articles d @ seg_persisted sid (articles_seq d) segs
             \<and> length (seg_persisted sid (articles_seq d) segs) = length segs
             \<and> snapshot_articles st' =
                 seg_yielded sid (articles_seq d) segs
                   @ replicate (length (filter appends rest)) (built sid rest)))
     \<and> (Attr (row_class s) \<noteq> ''athing'' \<and> (Attr (row_class s) = [] \<longrightarrow> subtext s = None)
          \<longrightarrow> row_effect s x = x \<and> \<not> appends s)"
proof -
  have 1: "\<exists>segs rest. rows = page_rows segs rest \<and> segmented segs rest"
    by (rule segmentation_exists)
  have 2: "\<exists>st' d'. FrontPage_parse (new_FrontPage sid) h (Some rows) d = Inr (st', d')
             \<and> articles d' = articles d @ seg_persisted sid (articles_seq d) segs
             \<and> length (seg_persisted sid (articles_seq d) segs) = length segs
             \<and> snapshot_articles st' =
                 seg_yielded sid (articles_seq d) segs
                   @ replicate (length (filter appends rest)) (built sid rest)"
    if "rows = page_rows segs rest \<and> segmented segs rest"
    using articles_general[of segs rest d sid h] that assms by blast
  have 3: "row_effect s x = x \<and> \<not> appends s"
    if "Attr (row_class s) \<noteq> ''athing'' \<and> (Attr (row_class s) = [] \<longrightarrow> subtext s = None)"
    using that by (auto simp: row_effect_def appends_def parseSubtextRow_def)
  show ?thesis using 1 2 3 by blast
qed

theorem articles_persisted_at_spacer_witness:
  "no_faults empty_db \<and> segmented sample_segments sample_rest
   \<and> length (page_rows sample_segments sample_rest) = 9
   \<and> (\<exists>st' d'. FrontPage_parse (new_FrontPage 1) []
          (Some (page_rows sample_segments sample_rest)) empty_db = Inr (st', d')
        \<and> map a_title (articles d') = [''A'', ''B'']
        \<and> map a_id (articles d') = [1, 2]
        \<and> map Title (snapshot_articles st') = [''A'']
        \<and> map art_ID (snapshot_articles st') = [1])
   \<and> row_effect (sample_layout (Some ''morespace'')) sample_article = sample_article
   \<and> \<not> appends (sample_layout (Some ''morespace''))"
proof -
  have n: "no_faults empty_db" by (simp add: no_faults_def empty_db_def)
  have sg: "segmented sample_segments sample_rest"
    by (simp add: segmented_def sample_segments_def sample_rest_def sample_group_def
        sample_layout_def is_spacer_def Attr_def)
  have len: "length (page_rows sample_segments sample_rest) = 9"
    by (simp add: page_rows_def sample_segments_def sample_rest_def)
  have a: "articles empty_db = []" "articles_seq empty_db = 0" by (simp_all add: empty_db_def)
  have p1: "map a_title (seg_persisted 1 0 sample_segments) = [''A'', ''B'']" by code_simp
  have p2: "map a_id (seg_persisted 1 0 sample_segments) = [1, 2]" by code_simp
  have y1: "map Title (seg_yielded 1 0 sample_segments
      @ replicate (length (filter appends sample_rest)) (built 1 sample_rest)) = [''A'']"
    by code_simp
  have y2: "map art_ID (seg_yielded 1 0 sample_segments
      @ replicate (length (filter appends sample_rest)) (built 1 sample_rest)) = [1]"
    by code_simp
  have cl: "Attr (row_class (sample_layout (Some ''morespace''))) \<noteq> ''athing''
      \<and> (Attr (row_class (sample_layout (Some ''morespace''))) = [] \<longrightarrow>
           subtext (sample_layout (Some ''morespace'')) = None)"
    by (simp add: sample_layout_def Attr_def)
  have T: "(\<exists>st' d'. FrontPage_parse (new_FrontPage 1) []
             (Some (page_rows sample_segments sample_rest)) empty_db = Inr (st', d')
             \<and> articles d' = articles empty_db @ seg_persisted 1 (articles_seq empty_db) sample_segments
             \<and> length (seg_persisted 1 (articles_seq empty_db) sample_segments)
                 = length sample_segments
             \<and> snapshot_articles st' =
                 seg_yielded 1 (articles_seq empty_db) sample_segments
                   @ replicate (length (filter appends sample_rest)) (built 1 sample_rest))
     \<and> row_effect (sample_layout (Some ''morespace'')) sample_article = sample_article
     \<and> \<not> appends (sample_layout (Some ''morespace''))"
    using articles_persisted_at_spacer [OF n,
        where rows = "page_rows sample_segments sample_rest" and segs = sample_segments
        and rest = sample_rest and sid = 1 and h = "[]"
        and s = "sample_layout (Some ''morespace'')" and x = sample_article] sg cl
    by blast
  then obtain st' d' where r: "FrontPage_parse (new_FrontPage 1) []
             (Some (page_rows sample_segments sample_rest)) empty_db = Inr (st', d')"
      "articles d' = articles empty_db @ seg_persisted 1 (articles_seq empty_db) sample_segments"
      "snapshot_articles st' =
                 seg_yielded 1 (articles_seq empty_db) sample_segments
                   @ replicate (length (filter appends sample_rest)) (built 1 sample_rest)"
    by blast
  have "map a_title (articles d') = [''A'', ''B''] \<and> map a_id (articles d') = [1, 2]
        \<and> map Title (snapshot_articles st') = [''A'']
        \<and> map art_ID (snapshot_articles st') = [1]"
    using r(2,3) p1 p2 y1 y2 by (simp add: a)
  then have E: "\<exists>st' d'. FrontPage_parse (new_FrontPage 1) []
          (Some (page_rows sample_segments sample_rest)) empty_db = Inr (st', d')
        \<and> map a_title (articles d') = [''A'', ''B'']
        \<and> map a_id (articles d') = [1, 2]
        \<and> map Title (snapshot_articles st') = [''A'']
        \<and> map art_ID (snapshot_articles st') = [1]"
    using r(1) by (intro exI[of _ st'] exI[of _ d']) simp
  have L: "row_effect (sample_layout (Some ''morespace'')) sample_article = sample_article"
      "\<not> appends (sample_layout (Some ''morespace''))"
    using T by simp_all
  show ?thesis using n sg len E L by (intro conjI)
qed

text \<open>
  C7 as stated fails: the article of a group without a subtext is not
  appended to the snapshot, but the spacer row persists it. Nor is every
  complete article persisted and appended once: when the rows end before the
  spacer row, the article is appended with id 0 and never persisted, and a
  second row with subtext elements appends the same article again.
\<close>

theorem incomplete_article_counterexample:
  "is_group (sample_group ''Ask HN'' False) \<and> \<not> has_subtext (sample_group ''Ask HN'' False)
   \<and> map_option snapshot_articles (result_value (FrontPage_parse (new_FrontPage 1) []
         (Some (group_rows (sample_group ''Ask HN'' False))) empty_db)) = Some []
   \<and> map a_title (articles (final_db (FrontPage_parse (new_FrontPage 1) []
         (Some (group_rows (sample_group ''Ask HN'' False))) empty_db))) = [''Ask HN'']
   \<and> map_option (map Title) (map_option snapshot_articles (result_value
         (FrontPage_parse (new_FrontPage 1) []
           (Some (take 2 (group_rows (sample_group ''Show HN'' True)))) empty_db)))
       = Some [''Show HN'']
   \<and> map_option (map art_ID) (map_option snapshot_articles (result_value
         (FrontPage_parse (new_FrontPage 1) []
           (Some (take 2 (group_rows (sample_group ''Show HN'' True)))) empty_db)))
       = Some [0]
   \<and> articles (final_db (FrontPage_parse (new_FrontPage 1) []
         (Some (take 2 (group_rows (sample_group ''Show HN'' True)))) empty_db)) = []
   \<and> map_option (map Title) (map_option snapshot_articles (result_value
         (FrontPage_parse (new_FrontPage 1) []
           (Some (take 2 (group_rows (sample_group ''Twice'' True))
                  @ tl (group_rows (sample_group ''Twice'' True)))) empty_db)))
       = Some [''Twice'', ''Twice'']"
  by code_simp

text \<open>
  C8. The number in the address of the permalink is read into the field
  \<^verbatim>\<open>ID\<close>, which \<^verbatim>\<open>store\<close> overwrites with the id the store assigns; the column
  \<^verbatim>\<open>comment_id\<close> is written from the field \<^verbatim>\<open>CommentID\<close>, which nothing sets.
  Evaluated on a well-formed row whose permalink carries the id 9001.
\<close>

theorem comment_id_is_never_set:
  "parseCommentHead (sample_row ''0'' [''ann'', ''link''] ''item?id=9001'') (new_Comment 7)
     = Inr ((new_Comment 7)\<lparr>ID := 9001, Username := ''ann''\<rparr>, None)
   \<and> map c_id (comments (final_db (CommentPage_parse new_CommentPage sample_article
        (Some [sample_row ''0'' [''ann'', ''link''] ''item?id=9001'']) empty_db))) = [1]
   \<and> map c_comment_id (comments (final_db (CommentPage_parse new_CommentPage sample_article
        (Some [sample_row ''0'' [''ann'', ''link''] ''item?id=9001'']) empty_db))) = [0]"
  by code_simp

text \<open>
  C9 as the code has it. When the text is a stretch without digits, then a
  run of digits, then a rest that is empty or starts with a character that is
  no digit (and the run is empty only if no digit occurs at all), the
  extraction returns the integer the run denotes if that is at most
  \<open>2^63 - 1\<close>, and 0 if the run is empty or denotes more. Every text has
  such a reading (lemma \<open>first_run_exists\<close>).
\<close>

theorem parseInt_first_run:
  assumes "list_all (\<lambda>c. \<not> is_digit c) pre" "list_all is_digit run"
    "rest = [] \<or> \<not> is_digit (hd rest)" "run = [] \<longrightarrow> rest = []"
  shows "parseIntFromSelectionText (pre @ run @ rest) =
           (if run = [] \<or> denoted run > max_int64 then 0 else denoted run)"
proof -
  have f: "FindString (pre @ run @ rest) = run" using assms by (rule FindString_decomp)
  show ?thesis
  proof (cases "run = []")
    case True
    then show ?thesis using f by (simp add: parseIntFromSelectionText_def Atoi_def)
  next
    case False
    then show ?thesis using f Atoi_digits[OF False assms(2)]
      by (simp add: parseIntFromSelectionText_def)
  qed
qed

theorem parseInt_first_run_witness:
  "list_all (\<lambda>c. \<not> is_digit c) ''Score: '' \<and> list_all is_digit ''42''
   \<and> \<not> is_digit (hd '' points'')
   \<and> parseIntFromSelectionText (''Score: '' @ ''42'' @ '' points'') = 42"
proof -
  have 1: "list_all (\<lambda>c. \<not> is_digit c) ''Score: ''" by (simp add: is_digit_def)
  have 2: "list_all is_digit ''42''" by (simp add: is_digit_def)
  have 3: "'' points'' = [] \<or> \<not> is_digit (hd '' points'')" by (simp add: is_digit_def)
  have 4: "''42'' = [] \<longrightarrow> '' points'' = []" by simp
  have 5: "denoted ''42'' = 42"
    by (simp add: denoted_def digit_val_def lessThan_nat_numeral lessThan_Suc)
  show ?thesis using parseInt_first_run [OF 1 2 3 4] 1 2 3
    by (simp add: 5 max_int64_def)
qed

text \<open>
  C9 as stated fails: \<^verbatim>\<open>x7\<close> has no leading digit and yields 7; twenty nines
  are a leading run that denotes \<open>10^20 - 1\<close> and yield 0.
\<close>

theorem parseInt_leading_run_counterexample:
  "takeWhile is_digit ''x7'' = [] \<and> parseIntFromSelectionText ''x7'' = 7
   \<and> takeWhile is_digit ''99999999999999999999'' = ''99999999999999999999''
   \<and> denoted ''99999999999999999999'' = 99999999999999999999
   \<and> parseIntFromSelectionText ''99999999999999999999'' = 0"
proof -
  have "denoted ''99999999999999999999'' = 99999999999999999999"
    by (simp add: denoted_def digit_val_def lessThan_nat_numeral lessThan_Suc)
  moreover have "takeWhile is_digit ''x7'' = [] \<and> parseIntFromSelectionText ''x7'' = 7
   \<and> takeWhile is_digit ''99999999999999999999'' = ''99999999999999999999''
   \<and> parseIntFromSelectionText ''99999999999999999999'' = 0"
    by (simp add: parseIntFromSelectionText_def FindString_def Atoi_def ParseUint_def
        is_digit_def digit_val_def max_uint64_def max_int64_def)
  ultimately show ?thesis by simp
qed

section \<open>Further properties\<close>

text \<open>
  A comment row whose head has exactly two links and whose address after
  the first link holds no \<^verbatim>\<open>=\<close> makes \<^verbatim>\<open>strings.Split(_id, "=")[1]\<close> panic:
  the scan ends the process before anything of the row is stored.
\<close>

theorem head_without_equals_panics:
  assumes "length (comhead_links r) = 2" "CHR ''='' \<notin> set (Attr (comhead_next_href r))"
  shows "scan_row a r (cp, d) = Inl (Panic, d)"
  using assms by (simp add: scan_row_def parseCommentHead_def Split_no_sep Let_def)

theorem head_without_equals_panics_witness:
  "length (comhead_links (sample_row ''0'' [''ann'', ''link''] ''item'')) = 2
   \<and> CHR ''='' \<notin> set (Attr (comhead_next_href (sample_row ''0'' [''ann'', ''link''] ''item'')))
   \<and> scan_row sample_article (sample_row ''0'' [''ann'', ''link''] ''item'')
        (new_CommentPage, empty_db) = Inl (Panic, empty_db)"
proof -
  have 1: "length (comhead_links (sample_row ''0'' [''ann'', ''link''] ''item'')) = 2"
    by (simp add: sample_row_def)
  have 2: "CHR ''='' \<notin> set (Attr (comhead_next_href (sample_row ''0'' [''ann'', ''link''] ''item'')))"
    by (simp add: sample_row_def Attr_def)
  show ?thesis
    using head_without_equals_panics [OF 1 2, of sample_article new_CommentPage empty_db] 1 2
    by simp
qed

text \<open>
  Over a store that answers, every comment a scan persists has 0 in the
  column \<^verbatim>\<open>comment_id\<close>, the id of the article scanned in \<^verbatim>\<open>article_id\<close>, and
  one of the ids the sequence drew during the scan.
\<close>

theorem comment_id_column_is_zero:
  assumes "fresh_ids d" "no_faults d" "\<forall>r\<in>set rows. head_ok r"
  shows "\<exists>cp' d' cs. CommentPage_parse new_CommentPage a (Some rows) d = Inr (cp', d')
     \<and> comments d' = comments d @ cs \<and> length cs = length rows
     \<and> (\<forall>c\<in>set cs. c_comment_id c = 0 \<and> c_article_id c = art_ID a
           \<and> comments_seq d < c_id c \<and> c_id c \<le> comments_seq d + int (length rows))"
proof -
  obtain cp' d' cs where r: "CommentPage_parse new_CommentPage a (Some rows) d = Inr (cp', d')"
      "comments_seq d' = comments_seq d + int (length rows)"
      "comments d' = comments d @ cs" "length cs = length rows"
      "\<forall>c\<in>set cs. comments_seq d < c_id c \<and> c_id c \<le> comments_seq d'
                  \<and> c_comment_id c = 0 \<and> c_article_id c = art_ID a"
    using scan_linked_start[OF assms, of a] by blast
  have "\<forall>c\<in>set cs. c_comment_id c = 0 \<and> c_article_id c = art_ID a
           \<and> comments_seq d < c_id c \<and> c_id c \<le> comments_seq d + int (length rows)"
    using r(2,5) by simp
  then show ?thesis using r(1,3,4) by blast
qed

theorem comment_id_column_is_zero_witness:
  "fresh_ids empty_db \<and> no_faults empty_db
   \<and> list_all head_ok (sample_rows [''0'', ''40''])
   \<and> (\<exists>cp' d' cs. CommentPage_parse new_CommentPage sample_article
          (Some (sample_rows [''0'', ''40''])) empty_db = Inr (cp', d')
        \<and> comments d' = cs \<and> length cs = 2
        \<and> (\<forall>c\<in>set cs. c_comment_id c = 0 \<and> c_article_id c = 7
              \<and> 0 < c_id c \<and> c_id c \<le> 2))"
proof -
  have f: "fresh_ids empty_db" by (simp add: fresh_ids_def empty_db_def)
  have n: "no_faults empty_db" by (simp add: no_faults_def empty_db_def)
  have h: "\<forall>r\<in>set (sample_rows [''0'', ''40'']). head_ok r"
    by (simp add: sample_rows_def head_ok_def sample_row_def Attr_def)
  have e: "comments empty_db = []" "comments_seq empty_db = 0" by (simp_all add: empty_db_def)
  have l: "length (sample_rows [''0'', ''40'']) = 2" by (simp add: sample_rows_def)
  have a: "art_ID sample_article = 7" by (simp add: sample_article_def)
  show ?thesis
    using comment_id_column_is_zero [OF f n h, of sample_article] f n h
    by (simp add: e l a list_all_iff)
qed

end
